theory Spec2Isabelle
  imports Main "HOL-Library.Multiset" "HOL-Library.Word"
begin

section \<open>Data model of \<^verbatim>\<open>btree/replicate.cc\<close>\<close>

text \<open>
  Block identifiers, keys and byte ranges. A buffer of a buffer group is the byte range it
  covers: \<^verbatim>\<open>add_buffer(size, data)\<close> appends the \<^verbatim>\<open>size\<close> bytes at \<^verbatim>\<open>data\<close>.
\<close>

type_synonym block_id_t = nat
type_synonym store_key_t = string
type_synonym bytes = string

text \<open>
  A \<^verbatim>\<open>btree_value\<close> is either stored inline (\<^verbatim>\<open>value()\<close>, \<^verbatim>\<open>value_size()\<close>) or is large
  (\<^verbatim>\<open>is_large()\<close>) and then holds the reference \<^verbatim>\<open>lb_ref()\<close> of a segmented large
  buffer. It carries \<^verbatim>\<open>mcflags()\<close>, \<^verbatim>\<open>exptime()\<close> and an optional \<^verbatim>\<open>cas()\<close>.
\<close>

datatype value_body = Small bytes | Large block_id_t

record btree_value =
  body :: value_body
  mcflags :: nat
  exptime :: nat
  cas_field :: "nat option"

definition has_cas :: "btree_value \<Rightarrow> bool" where
  "has_cas v = (cas_field v \<noteq> None)"

definition cas :: "btree_value \<Rightarrow> nat" where
  "cas v = (case cas_field v of Some c \<Rightarrow> c | None \<Rightarrow> 0)"

text \<open>
  A tree node is internal (pairs of a separator key and the child block \<^verbatim>\<open>lnode\<close>) or a
  leaf (pairs of a key and a value), each with its pairs in \<^verbatim>\<open>pair_offsets\<close> order.
\<close>

datatype node_t =
    Internal_node "(store_key_t \<times> block_id_t) list"
  | Leaf_node "(store_key_t \<times> btree_value) list"

text \<open>Fatal outcomes: a failed \<^verbatim>\<open>assert\<close>, \<^verbatim>\<open>fail(...)\<close>, and undefined behaviour.\<close>

datatype error =
    Assertion_failed
  | Fail string
  | Use_after_free
  | Null_dereference
  | Out_of_bounds
  | Uninitialized_read

text \<open>
  What the collaborators observe, newest event first: the buffer cache (transactions, block
  and large-buffer acquisition and release), the sink (\<^verbatim>\<open>value\<close> deliveries and the
  done-continuation it invokes) and the lifetime of the \<^verbatim>\<open>branch_walker_t\<close> objects.
\<close>

datatype event =
    E_begin
  | E_commit
  | E_acquire_super
  | E_release_super
  | E_construct nat
  | E_destroy nat
  | E_acquire nat block_id_t
  | E_release nat block_id_t
  | E_large_acquire nat block_id_t
  | E_large_release nat block_id_t
  | E_value nat store_key_t "bytes list" nat nat nat
  | E_done nat

text \<open>
  The calls in flight. A call that the code makes directly is on the \<open>stack\<close> of its
  context (the rest of the calling function stays below it); a callback registered with a
  collaborator that has not fired yet is \<open>pending\<close>.
\<close>

datatype cmd =
    Start
  | Superblock_available
  | Release_superblock
  | Walk_branch block_id_t
  | Block_available nat block_id_t
  | Delete_this nat
  | Large_buf_available nat
  | Done_callback nat

text \<open>Messages sent with \<^verbatim>\<open>do_on_cpu\<close>: to a slice's home context, and back to the replicant's.\<close>

datatype msg =
    Start_msg
  | Install_msg
  | Uninstall_msg
  | Report_msg
  | Have_uninstalled_msg

datatype txn_state = Not_begun | Open_txn | Committed

record branch_walker_t =
  buf :: "block_id_t option"
  current_pair :: int
  current_key :: "store_key_t option"
  current_value :: "btree_value option"
  large_value :: "block_id_t option"
  buffers :: "bytes list"

text \<open>
  One slice (shard) together with the \<^verbatim>\<open>slice_walker_t\<close> the replicant starts on it:
  \<^item> \<open>replicants\<close> is \<^verbatim>\<open>btree_slice_t::replicants\<close>, a vector of replicant addresses;
  \<^item> \<open>root_block\<close> (\<open>None\<close> for \<^verbatim>\<open>NULL_BLOCK_ID\<close>), \<open>blocks\<close> and \<open>large_bufs\<close> are what the
    read transaction shows: the superblock's root, the node in each block, and the segments
    of the large buffer behind each reference;
  \<^item> \<open>active_branch_walkers\<close> and \<open>txn\<close> are the fields of \<^verbatim>\<open>slice_walker_t\<close>;
  \<^item> \<open>walkers\<close> is the heap of live \<^verbatim>\<open>branch_walker_t\<close> objects, \<open>next_walker\<close> the next
    fresh address;
  \<^item> \<open>stack\<close>, \<open>pending\<close>, \<open>inbox\<close> and \<open>outbox\<close> hold the calls and messages in flight.
\<close>

record slice_t =
  replicants :: "nat list"
  root_block :: "block_id_t option"
  blocks :: "block_id_t \<Rightarrow> node_t"
  large_bufs :: "block_id_t \<Rightarrow> bytes list"
  active_branch_walkers :: int
  txn :: txn_state
  walkers :: "nat \<rightharpoonup> branch_walker_t"
  next_walker :: nat
  stack :: "cmd list"
  pending :: "cmd list"
  inbox :: "msg list"
  outbox :: "msg list"
  trace :: "event list"
  failure :: "error option"

section \<open>The slice walker and the branch walkers\<close>

definition crash :: "error \<Rightarrow> slice_t \<Rightarrow> slice_t" where
  "crash e s = s\<lparr>failure := Some e\<rparr>"

definition emit :: "event \<Rightarrow> slice_t \<Rightarrow> slice_t" where
  "emit e s = s\<lparr>trace := e # trace s\<rparr>"

text \<open>
  \<^verbatim>\<open>txn->acquire(id, rwi_read, this)\<close>, \<^verbatim>\<open>large_value->acquire(ref, rwi_read, this)\<close> and the
  sink's \<^verbatim>\<open>value(..., this, ...)\<close> either complete at once, and then the callback runs as a
  nested call before the caller continues (\<open>now\<close>), or keep the callback and fire it later.
\<close>

definition hand_over :: "bool \<Rightarrow> cmd \<Rightarrow> slice_t \<Rightarrow> slice_t" where
  "hand_over now c s = (if now then s\<lparr>stack := c # stack s\<rparr> else s\<lparr>pending := pending s @ [c]\<rparr>)"

text \<open>\<^verbatim>\<open>slice_walker_t::done\<close>: commit the transaction, schedule \<^verbatim>\<open>report\<close> on the home context.\<close>

definition slice_done :: "slice_t \<Rightarrow> slice_t" where
  "slice_done s =
     (if txn s = Open_txn
      then emit E_commit (s\<lparr>txn := Committed, outbox := outbox s @ [Report_msg]\<rparr>)
      else crash Assertion_failed s)"

text \<open>\<^verbatim>\<open>slice_walker_t::start\<close>.\<close>

definition start :: "bool \<Rightarrow> slice_t \<Rightarrow> slice_t" where
  "start now s =
     hand_over now Superblock_available (emit E_acquire_super (emit E_begin (s\<lparr>txn := Open_txn\<rparr>)))"

text \<open>
  \<^verbatim>\<open>slice_walker_t::on_block_available\<close>: \<^verbatim>\<open>walk_branch\<close> on the root or \<^verbatim>\<open>done()\<close>, and then
  \<^verbatim>\<open>buf->release()\<close>.
\<close>

definition slice_on_block_available :: "slice_t \<Rightarrow> slice_t" where
  "slice_on_block_available s =
     (case root_block s of
        Some r \<Rightarrow> s\<lparr>stack := Walk_branch r # Release_superblock # stack s\<rparr>
      | None \<Rightarrow> emit E_release_super (slice_done s))"

text \<open>The constructor \<^verbatim>\<open>branch_walker_t(parent, block_id)\<close>, called by \<^verbatim>\<open>walk_branch\<close>.\<close>

definition new_walker :: branch_walker_t where
  "new_walker = \<lparr>buf = None, current_pair = 0, current_key = None, current_value = None,
     large_value = None, buffers = []\<rparr>"

definition walk_branch :: "bool \<Rightarrow> block_id_t \<Rightarrow> slice_t \<Rightarrow> slice_t" where
  "walk_branch now b s =
     (let w = next_walker s in
      hand_over now (Block_available w b)
        (emit (E_acquire w b) (emit (E_construct w)
          (s\<lparr>next_walker := Suc w,
             walkers := (walkers s)(w \<mapsto> new_walker),
             active_branch_walkers := active_branch_walkers s + 1\<rparr>))))"

text \<open>The destructor \<^verbatim>\<open>~branch_walker_t\<close>, run by \<^verbatim>\<open>delete this\<close>.\<close>

definition delete_this :: "nat \<Rightarrow> slice_t \<Rightarrow> slice_t" where
  "delete_this w s =
     (case walkers s w of
        None \<Rightarrow> crash Use_after_free s
      | Some wk \<Rightarrow>
         (case buf wk of
            None \<Rightarrow> crash Null_dereference s
          | Some b \<Rightarrow>
             (let s1 = emit (E_destroy w) (emit (E_release w b)
                         (s\<lparr>walkers := (walkers s)(w := None),
                            active_branch_walkers := active_branch_walkers s - 1\<rparr>))
              in if active_branch_walkers s1 = 0 then slice_done s1 else s1)))"

text \<open>\<^verbatim>\<open>branch_walker_t::deliver_value\<close>: the sink's \<^verbatim>\<open>value\<close> with \<^verbatim>\<open>this\<close> as done-continuation.\<close>

definition deliver_value :: "bool \<Rightarrow> nat \<Rightarrow> slice_t \<Rightarrow> slice_t" where
  "deliver_value now w s =
     (case walkers s w of
        None \<Rightarrow> crash Use_after_free s
      | Some wk \<Rightarrow>
         (case (current_key wk, current_value wk) of
            (Some k, Some v) \<Rightarrow>
              hand_over now (Done_callback w)
                (emit (E_value w k (buffers wk) (mcflags v) (exptime v)
                         (if has_cas v then cas v else 0)) s)
          | _ \<Rightarrow> crash Null_dereference s))"

text \<open>\<^verbatim>\<open>branch_walker_t::have_copied_value\<close>.\<close>

definition have_copied_value :: "bool \<Rightarrow> nat \<Rightarrow> slice_t \<Rightarrow> slice_t" where
  "have_copied_value now w s =
     (case walkers s w of
        None \<Rightarrow> crash Use_after_free s
      | Some wk \<Rightarrow>
         (let s1 = (case large_value wk of None \<Rightarrow> s | Some r \<Rightarrow> emit (E_large_release w r) s);
              cp = current_pair wk + 1;
              wk1 = wk\<lparr>current_pair := cp\<rparr>
          in case buf wk of
               None \<Rightarrow> crash Null_dereference s1
             | Some b \<Rightarrow>
                (case blocks s b of
                   Internal_node ps \<Rightarrow> crash Out_of_bounds s1
                 | Leaf_node ps \<Rightarrow>
                    if cp = int (length ps)
                    then delete_this w (s1\<lparr>walkers := (walkers s1)(w \<mapsto> wk1)\<rparr>)
                    else if cp < 0 \<or> int (length ps) < cp then crash Out_of_bounds s1
                    else
                      (let k = fst (ps ! nat cp); v = snd (ps ! nat cp);
                           wk2 = wk1\<lparr>current_key := Some k, current_value := Some v\<rparr>
                       in case body v of
                            Large r \<Rightarrow>
                              hand_over now (Large_buf_available w)
                                (emit (E_large_acquire w r)
                                  (s1\<lparr>walkers := (walkers s1)(w \<mapsto> wk2\<lparr>large_value := Some r\<rparr>)\<rparr>))
                          | Small bs \<Rightarrow>
                              deliver_value now w
                                (s1\<lparr>walkers := (walkers s1)(w \<mapsto>
                                       wk2\<lparr>large_value := None, buffers := [bs]\<rparr>)\<rparr>)))))"

text \<open>
  \<^verbatim>\<open>branch_walker_t::on_block_available\<close>. The loop over the pairs of an internal node makes
  one \<^verbatim>\<open>walk_branch\<close> call per pair, in pair order, and \<^verbatim>\<open>delete this\<close> follows the loop: these
  calls are what the function still has to do, so they go on the stack in that order.
\<close>

definition on_block_available :: "bool \<Rightarrow> nat \<Rightarrow> block_id_t \<Rightarrow> slice_t \<Rightarrow> slice_t" where
  "on_block_available now w b s =
     (case walkers s w of
        None \<Rightarrow> crash Use_after_free s
      | Some wk \<Rightarrow>
         (case blocks s b of
            Internal_node ps \<Rightarrow>
              s\<lparr>walkers := (walkers s)(w \<mapsto> wk\<lparr>buf := Some b\<rparr>),
                stack := map (\<lambda>p. Walk_branch (snd p)) ps @ Delete_this w # stack s\<rparr>
          | Leaf_node ps \<Rightarrow>
              have_copied_value now w
                (s\<lparr>walkers := (walkers s)(w \<mapsto>
                      wk\<lparr>buf := Some b, current_pair := - 1, large_value := None\<rparr>)\<rparr>)))"

text \<open>Modelled from the spec: \<^verbatim>\<open>large_buf_t::get_segment\<close> and
  \<^verbatim>\<open>const_buffer_group_t::add_buffer\<close> are declared outside this file. The spec gives
  \<^verbatim>\<open>get_segment(handle, index) -> bytes\<close>; in the source the call returns the data of segment
  \<open>i\<close> and stores its size through a \<^verbatim>\<open>uint16_t *\<close>, so the size that reaches \<^verbatim>\<open>add_buffer\<close>
  is the length of the segment as a 16-bit value, and the buffer added is that many bytes of
  the data.\<close>

definition get_segment :: "bytes list \<Rightarrow> nat \<Rightarrow> bytes \<times> 16 word" where
  "get_segment segs i = (segs ! i, word_of_nat (length (segs ! i)))"

definition add_buffer :: "16 word \<Rightarrow> bytes \<Rightarrow> bytes list \<Rightarrow> bytes list" where
  "add_buffer sz data bufs = bufs @ [take (unat sz) data]"

text \<open>
  \<^verbatim>\<open>branch_walker_t::on_large_buf_available\<close>: the loop
  \<^verbatim>\<open>for (i = 0; i < get_num_segments(); i++) { uint16_t size; data = get_segment(i, &size);
  add_buffer(size, data); }\<close> over the segments \<open>segs\<close> of the acquired large buffer.
\<close>

function add_segments :: "bytes list \<Rightarrow> nat \<Rightarrow> bytes list \<Rightarrow> bytes list" where
  "add_segments segs i bufs =
     (if i < length segs
      then add_segments segs (i + 1)
             (add_buffer (snd (get_segment segs i)) (fst (get_segment segs i)) bufs)
      else bufs)"
  by pat_completeness auto
termination
  by (relation "measure (\<lambda>(segs, i, bufs). length segs - i)") auto

definition on_large_buf_available :: "bool \<Rightarrow> nat \<Rightarrow> slice_t \<Rightarrow> slice_t" where
  "on_large_buf_available now w s =
     (case walkers s w of
        None \<Rightarrow> crash Use_after_free s
      | Some wk \<Rightarrow>
         (case large_value wk of
            None \<Rightarrow> crash Null_dereference s
          | Some r \<Rightarrow>
             deliver_value now w
               (s\<lparr>walkers := (walkers s)(w \<mapsto>
                     wk\<lparr>buffers := add_segments (large_bufs s r) 0 []\<rparr>)\<rparr>)))"

text \<open>One call taken from the stack. The sink invoking the done-continuation is observed.\<close>

fun exec :: "bool \<Rightarrow> cmd \<Rightarrow> slice_t \<Rightarrow> slice_t" where
  "exec now Start s = start now s"
| "exec now Superblock_available s = slice_on_block_available s"
| "exec now Release_superblock s = emit E_release_super s"
| "exec now (Walk_branch b) s = walk_branch now b s"
| "exec now (Block_available w b) s = on_block_available now w b s"
| "exec now (Delete_this w) s = delete_this w s"
| "exec now (Large_buf_available w) s = on_large_buf_available now w s"
| "exec now (Done_callback w) s = have_copied_value now w (emit (E_done w) s)"

text \<open>
  The steps of a slice's context: run the call on top of the stack; with an empty stack, let
  a collaborator fire a pending callback, or take the \<^verbatim>\<open>start\<close> message from the inbox.
\<close>

inductive slice_step :: "slice_t \<Rightarrow> slice_t \<Rightarrow> bool" where
  run: "failure s = None \<Longrightarrow> stack s = c # cs \<Longrightarrow> slice_step s (exec now c (s\<lparr>stack := cs\<rparr>))"
| resume: "failure s = None \<Longrightarrow> stack s = [] \<Longrightarrow> pending s = xs @ c # ys \<Longrightarrow>
     slice_step s (s\<lparr>pending := xs @ ys, stack := [c]\<rparr>)"
| begin_walk: "failure s = None \<Longrightarrow> stack s = [] \<Longrightarrow> inbox s = Start_msg # ms \<Longrightarrow>
     slice_step s (s\<lparr>inbox := ms, stack := [Start]\<rparr>)"

section \<open>The replicant and the store\<close>

text \<open>
  \<^verbatim>\<open>btree_replicant_t\<close>: \<open>self\<close> is the address \<^verbatim>\<open>this\<close>; \<open>active_uninstallations\<close> is not
  initialised by the constructor (\<open>None\<close>); \<open>stopped_calls\<close> counts the calls of the sink's
  \<^verbatim>\<open>stopped()\<close>; \<open>deleted\<close> records \<^verbatim>\<open>delete this\<close>. The store's slices stand beside it.
\<close>

record btree_replicant_t =
  self :: nat
  stopping :: bool
  active_slice_walkers :: int
  active_uninstallations :: "int option"
  stopped_calls :: nat
  deleted :: bool
  rfailure :: "error option"

record world = btree_replicant_t +
  slices :: "slice_t list"

definition rcrash :: "error \<Rightarrow> world \<Rightarrow> world" where
  "rcrash e s = s\<lparr>rfailure := Some e\<rparr>"

text \<open>\<^verbatim>\<open>btree_replicant_t::done\<close>.\<close>

definition replicant_done :: "world \<Rightarrow> world" where
  "replicant_done s =
     (if stopping s then s\<lparr>stopped_calls := Suc (stopped_calls s), deleted := True\<rparr>
      else rcrash Assertion_failed s)"

text \<open>
  \<^verbatim>\<open>btree_replicant_t::slice_walker_done\<close>. The condition is evaluated left to right:
  \<^verbatim>\<open>active_uninstallations\<close> is read only when \<^verbatim>\<open>stopping\<close> holds and no slice walker is left.
\<close>

definition slice_walker_done :: "world \<Rightarrow> world" where
  "slice_walker_done s =
     (if deleted s then rcrash Use_after_free s
      else
        (let s1 = s\<lparr>active_slice_walkers := active_slice_walkers s - 1\<rparr> in
         if active_slice_walkers s1 < 0 then rcrash Assertion_failed s1
         else if stopping s1 \<and> active_slice_walkers s1 = 0
         then (case active_uninstallations s1 of
                 None \<Rightarrow> rcrash Uninitialized_read s1
               | Some u \<Rightarrow> if u = 0 then replicant_done s1 else s1)
         else s1))"

text \<open>\<^verbatim>\<open>btree_replicant_t::install\<close>: \<^verbatim>\<open>slice->replicants.push_back(this)\<close>.\<close>

definition install :: "nat \<Rightarrow> slice_t \<Rightarrow> slice_t" where
  "install this sl = sl\<lparr>replicants := replicants sl @ [this]\<rparr>"

text \<open>
  The loop of \<^verbatim>\<open>btree_replicant_t::uninstall\<close>: erase the first element equal to \<^verbatim>\<open>this\<close>;
  \<open>None\<close> when the iterator reaches the end.
\<close>

fun erase_first :: "nat \<Rightarrow> nat list \<Rightarrow> nat list option" where
  "erase_first this [] = None"
| "erase_first this (x # xs) =
     (if x = this then Some xs
      else (case erase_first this xs of None \<Rightarrow> None | Some ys \<Rightarrow> Some (x # ys)))"

text \<open>
  \<^verbatim>\<open>btree_replicant_t::uninstall\<close>, on the slice's context; \<open>st\<close> is the replicant's
  \<^verbatim>\<open>stopping\<close> flag, which the assertion reads.
\<close>

definition uninstall :: "bool \<Rightarrow> nat \<Rightarrow> slice_t \<Rightarrow> slice_t" where
  "uninstall st this sl =
     (if \<not> st then crash Assertion_failed sl
      else (case erase_first this (replicants sl) of
              Some rs \<Rightarrow> sl\<lparr>replicants := rs, outbox := outbox sl @ [Have_uninstalled_msg]\<rparr>
            | None \<Rightarrow> crash (Fail ''We were never installed on this slice.'') sl))"

text \<open>\<^verbatim>\<open>btree_replicant_t::have_uninstalled\<close>.\<close>

definition have_uninstalled :: "world \<Rightarrow> world" where
  "have_uninstalled s =
     (if deleted s then rcrash Use_after_free s
      else if \<not> stopping s then rcrash Assertion_failed s
      else (case active_uninstallations s of
              None \<Rightarrow> rcrash Uninitialized_read s
            | Some u \<Rightarrow>
               (let s1 = s\<lparr>active_uninstallations := Some (u - 1)\<rparr> in
                if u - 1 < 0 then rcrash Assertion_failed s1
                else if u - 1 = 0 \<and> active_slice_walkers s1 = 0 then replicant_done s1
                else s1)))"

text \<open>\<^verbatim>\<open>btree_replicant_t::stop\<close>: one \<^verbatim>\<open>uninstall\<close> message to every slice.\<close>

definition stop :: "world \<Rightarrow> world" where
  "stop s =
     (if deleted s then rcrash Use_after_free s
      else s\<lparr>stopping := True,
             active_uninstallations := Some (int (length (slices s))),
             slices := map (\<lambda>sl. sl\<lparr>inbox := inbox sl @ [Uninstall_msg]\<rparr>) (slices s)\<rparr>)"

text \<open>
  \<^verbatim>\<open>walk_slice\<close>: the constructor of \<^verbatim>\<open>slice_walker_t\<close> initialises the walker of the slice and
  sends it the \<^verbatim>\<open>start\<close> message.
\<close>

definition walk_slice :: "slice_t \<Rightarrow> slice_t" where
  "walk_slice sl = sl\<lparr>active_branch_walkers := 0, txn := Not_begun, walkers := Map.empty,
     next_walker := 0, stack := [], pending := [], inbox := [Start_msg], outbox := [],
     trace := [], failure := None\<rparr>"

text \<open>
  The constructor of \<^verbatim>\<open>btree_replicant_t\<close> on the slices \<open>sls\<close> of the store
  (\<^verbatim>\<open>n_slices\<close> is their number): first \<^verbatim>\<open>walk_slice\<close> on every slice, then an \<^verbatim>\<open>install\<close>
  message to every slice.
\<close>

definition construct :: "nat \<Rightarrow> slice_t list \<Rightarrow> world" where
  "construct this sls =
     \<lparr>self = this, stopping = False, active_slice_walkers = int (length sls),
      active_uninstallations = None, stopped_calls = 0, deleted = False, rfailure = None,
      slices = map (\<lambda>sl. sl\<lparr>inbox := inbox sl @ [Install_msg]\<rparr>) (map walk_slice sls)\<rparr>"

text \<open>Modelled from the spec: \<^verbatim>\<open>do_on_cpu\<close> is declared outside this file. The spec says the
  call returns immediately, the receiving context runs the operation at a future turn of its
  own, and operations scheduled onto one context run in the order they were sent. So a
  message is appended to the inbox of its slice (taken from the front, between calls), or to
  the slice's outbox towards the replicant's home context (taken in any order).\<close>

definition crashed :: "world \<Rightarrow> bool" where
  "crashed s = (rfailure s \<noteq> None \<or> list_ex (\<lambda>sl. failure sl \<noteq> None) (slices s))"

inductive step :: "world \<Rightarrow> world \<Rightarrow> bool" where
  on_slice: "\<not> crashed s \<Longrightarrow> i < length (slices s) \<Longrightarrow> slice_step (slices s ! i) sl' \<Longrightarrow>
     step s (s\<lparr>slices := (slices s)[i := sl']\<rparr>)"
| do_install: "\<not> crashed s \<Longrightarrow> i < length (slices s) \<Longrightarrow> sl = slices s ! i \<Longrightarrow>
     stack sl = [] \<Longrightarrow> inbox sl = Install_msg # ms \<Longrightarrow>
     step s (s\<lparr>slices := (slices s)[i := install (self s) (sl\<lparr>inbox := ms\<rparr>)]\<rparr>)"
| do_uninstall: "\<not> crashed s \<Longrightarrow> i < length (slices s) \<Longrightarrow> sl = slices s ! i \<Longrightarrow>
     stack sl = [] \<Longrightarrow> inbox sl = Uninstall_msg # ms \<Longrightarrow>
     step s (s\<lparr>slices := (slices s)[i := uninstall (stopping s) (self s) (sl\<lparr>inbox := ms\<rparr>)]\<rparr>)"
| do_report: "\<not> crashed s \<Longrightarrow> i < length (slices s) \<Longrightarrow> sl = slices s ! i \<Longrightarrow>
     outbox sl = xs @ Report_msg # ys \<Longrightarrow>
     step s (slice_walker_done (s\<lparr>slices := (slices s)[i := sl\<lparr>outbox := xs @ ys\<rparr>]\<rparr>))"
| do_have_uninstalled: "\<not> crashed s \<Longrightarrow> i < length (slices s) \<Longrightarrow> sl = slices s ! i \<Longrightarrow>
     outbox sl = xs @ Have_uninstalled_msg # ys \<Longrightarrow>
     step s (have_uninstalled (s\<lparr>slices := (slices s)[i := sl\<lparr>outbox := xs @ ys\<rparr>]\<rparr>))"
| do_stop: "\<not> crashed s \<Longrightarrow> \<not> stopping s \<Longrightarrow> step s (stop s)"

declare add_segments.simps [simp del]

section \<open>Invariants of a slice walk\<close>

fun owner :: "cmd \<Rightarrow> nat option" where
  "owner (Block_available w b) = Some w"
| "owner (Delete_this w) = Some w"
| "owner (Large_buf_available w) = Some w"
| "owner (Done_callback w) = Some w"
| "owner c = None"

fun owners :: "cmd list \<Rightarrow> nat list" where
  "owners [] = []"
| "owners (c # cs) = (case owner c of Some w \<Rightarrow> w # owners cs | None \<Rightarrow> owners cs)"

definition todo :: "slice_t \<Rightarrow> cmd list" where
  "todo s = stack s @ pending s"

fun guarded :: "cmd list \<Rightarrow> bool" where
  "guarded [] = True"
| "guarded (Walk_branch b # cs) = ((\<exists>w. Delete_this w \<in> set cs) \<and> guarded cs)"
| "guarded (c # cs) = guarded cs"

fun is_callback :: "cmd \<Rightarrow> bool" where
  "is_callback (Block_available w b) = True"
| "is_callback (Large_buf_available w) = True"
| "is_callback (Done_callback w) = True"
| "is_callback c = False"

definition leaf_of ::
  "(nat \<rightharpoonup> branch_walker_t) \<Rightarrow> (block_id_t \<Rightarrow> node_t) \<Rightarrow> nat \<Rightarrow>
    (branch_walker_t \<times> (store_key_t \<times> btree_value) list) option" where
  "leaf_of ws bl w =
     (case ws w of
        None \<Rightarrow> None
      | Some wk \<Rightarrow>
         (case buf wk of
            None \<Rightarrow> None
          | Some b \<Rightarrow> (case bl b of Leaf_node ps \<Rightarrow> Some (wk, ps) | Internal_node ps \<Rightarrow> None)))"

fun coherent :: "(nat \<rightharpoonup> branch_walker_t) \<Rightarrow> (block_id_t \<Rightarrow> node_t) \<Rightarrow> cmd \<Rightarrow> bool" where
  "coherent ws bl (Block_available w b) =
     (case ws w of None \<Rightarrow> False | Some wk \<Rightarrow> large_value wk = None)"
| "coherent ws bl (Delete_this w) =
     (case ws w of None \<Rightarrow> False | Some wk \<Rightarrow> buf wk \<noteq> None)"
| "coherent ws bl (Large_buf_available w) =
     (case leaf_of ws bl w of
        None \<Rightarrow> False
      | Some (wk, ps) \<Rightarrow>
          0 \<le> current_pair wk \<and> nat (current_pair wk) < length ps \<and>
          current_key wk = Some (fst (ps ! nat (current_pair wk))) \<and>
          current_value wk = Some (snd (ps ! nat (current_pair wk))) \<and>
          (case large_value wk of
             None \<Rightarrow> False
           | Some r \<Rightarrow> body (snd (ps ! nat (current_pair wk))) = Large r))"
| "coherent ws bl (Done_callback w) =
     (case leaf_of ws bl w of
        None \<Rightarrow> False
      | Some (wk, ps) \<Rightarrow> 0 \<le> current_pair wk \<and> nat (current_pair wk) < length ps)"
| "coherent ws bl c = True"

fun n_constructed :: "event list \<Rightarrow> nat" where
  "n_constructed [] = 0"
| "n_constructed (E_construct w # tr) = Suc (n_constructed tr)"
| "n_constructed (e # tr) = n_constructed tr"

fun n_destroyed :: "event list \<Rightarrow> nat" where
  "n_destroyed [] = 0"
| "n_destroyed (E_destroy w # tr) = Suc (n_destroyed tr)"
| "n_destroyed (e # tr) = n_destroyed tr"

fun n_commits :: "event list \<Rightarrow> nat" where
  "n_commits [] = 0"
| "n_commits (E_commit # tr) = Suc (n_commits tr)"
| "n_commits (e # tr) = n_commits tr"

definition prewalk :: "slice_t \<Rightarrow> bool" where
  "prewalk s =
     (next_walker s = 0 \<and> Report_msg \<notin> set (outbox s) \<and>
      n_commits (trace s) = 0 \<and> n_constructed (trace s) = 0 \<and> n_destroyed (trace s) = 0 \<and>
      ((txn s = Not_begun \<and> stack s = [] \<and> pending s = [] \<and> count_list (inbox s) Start_msg = 1) \<or>
       (txn s = Not_begun \<and> stack s = [Start] \<and> pending s = [] \<and> Start_msg \<notin> set (inbox s)) \<or>
       (txn s = Open_txn \<and> Start_msg \<notin> set (inbox s) \<and>
        (stack s = [Superblock_available] \<and> pending s = [] \<or>
         stack s = [] \<and> pending s = [Superblock_available])) \<or>
       (txn s = Open_txn \<and> stack s = [Walk_branch (the (root_block s)), Release_superblock] \<and>
        root_block s \<noteq> None \<and> pending s = [] \<and> Start_msg \<notin> set (inbox s))))"

definition walking :: "slice_t \<Rightarrow> bool" where
  "walking s =
     (txn s \<noteq> Not_begun \<and> Start_msg \<notin> set (inbox s) \<and> guarded (stack s) \<and>
      Start \<notin> set (todo s) \<and> Superblock_available \<notin> set (todo s) \<and>
      (\<forall>c \<in> set (pending s). is_callback c) \<and>
      (txn s = Open_txn \<longleftrightarrow> owners (todo s) \<noteq> []) \<and>
      n_commits (trace s) = (if txn s = Committed then 1 else 0) \<and>
      (Report_msg \<in> set (outbox s) \<longrightarrow> txn s = Committed))"

definition sinv :: "slice_t \<Rightarrow> bool" where
  "sinv s =
     (failure s = None \<and>
      active_branch_walkers s = int (length (owners (todo s))) \<and>
      distinct (owners (todo s)) \<and>
      dom (walkers s) = set (owners (todo s)) \<and>
      (\<forall>w \<in> set (owners (todo s)). w < next_walker s) \<and>
      (\<forall>c \<in> set (todo s). coherent (walkers s) (blocks s) c) \<and>
      n_constructed (trace s) = next_walker s \<and>
      n_destroyed (trace s) + length (owners (todo s)) = next_walker s \<and>
      count_list (outbox s) Report_msg \<le> 1 \<and>
      (prewalk s \<or> walking s))"

text \<open>The release of the large value a walker holds, as \<^verbatim>\<open>have_copied_value\<close> records it.\<close>

definition released :: "nat \<Rightarrow> branch_walker_t \<Rightarrow> event list" where
  "released w wk = (case large_value wk of None \<Rightarrow> [] | Some r \<Rightarrow> [E_large_release w r])"

section \<open>Segmented values and an example store\<close>

text \<open>Modelled from the spec: \<^verbatim>\<open>large_buf_t\<close> is declared outside this file. The spec calls a
  large value a logical byte blob physically split into an ordered sequence of segments;
  \<open>split_segments sizes blob\<close> are the segments of \<open>blob\<close> for the segment sizes \<open>sizes\<close>,
  and \<open>large_bufs\<close> holds them behind the value's reference.\<close>

fun split_segments :: "nat list \<Rightarrow> bytes \<Rightarrow> bytes list" where
  "split_segments [] blob = []"
| "split_segments (n # ns) blob = take n blob # split_segments ns (drop n blob)"

text \<open>
  The example of the spec: shard A is one leaf with the entries \<open>a\<close> (inline) and \<open>b\<close> (a large
  value of three segments), shard B is empty. Shard C has an internal root over two leaves.
\<close>

definition value_a :: btree_value where
  "value_a = \<lparr>body = Small ''1'', mcflags = 0, exptime = 0, cas_field = None\<rparr>"

definition value_b :: btree_value where
  "value_b = \<lparr>body = Large 7, mcflags = 2, exptime = 0, cas_field = Some 5\<rparr>"

definition shard_A :: slice_t where
  "shard_A = \<lparr>replicants = [], root_block = Some 1,
     blocks = (\<lambda>b. Leaf_node [(''a'', value_a), (''b'', value_b)]),
     large_bufs = (\<lambda>r. split_segments [2, 1, 1] ''xyzw''),
     active_branch_walkers = 0, txn = Not_begun, walkers = Map.empty, next_walker = 0,
     stack = [], pending = [], inbox = [], outbox = [], trace = [], failure = None\<rparr>"

definition shard_B :: slice_t where
  "shard_B = shard_A\<lparr>replicants := [4], root_block := None\<rparr>"

definition shard_C :: slice_t where
  "shard_C = shard_A\<lparr>blocks :=
     (\<lambda>b. if b = 1 then Internal_node [(''a'', 2), (''m'', 3)]
          else if b = 2 then Leaf_node [(''a'', value_a)]
          else Leaf_node [])\<rparr>"

text \<open>Shard A while its walker \<open>0\<close> waits for the large value of entry \<open>b\<close>.\<close>

definition shard_A_at_b :: slice_t where
  "shard_A_at_b = shard_A\<lparr>txn := Open_txn, active_branch_walkers := 1, next_walker := 1,
     walkers := [0 \<mapsto> \<lparr>buf = Some 1, current_pair = 1, current_key = Some ''b'',
       current_value = Some value_b, large_value = Some 7, buffers = [''1'']\<rparr>]\<rparr>"

text \<open>The same state when the large value of \<open>b\<close> is one segment of \<open>65536\<close> bytes.\<close>

definition shard_A_wide :: slice_t where
  "shard_A_wide = shard_A_at_b\<lparr>large_bufs :=
     (\<lambda>r. split_segments [65536] (replicate 65536 CHR ''x''))\<rparr>"

section \<open>Back-pressure, read off the trace\<close>

text \<open>
  \<open>held w tr\<close> counts the large values walker \<open>w\<close> has acquired and not released in \<open>tr\<close>
  (newest event first); \<open>unacked w tr\<close> counts its deliveries for which the sink has not
  invoked the done-continuation.
\<close>

fun held :: "nat \<Rightarrow> event list \<Rightarrow> int" where
  "held w [] = 0"
| "held w (E_large_acquire w' r # tr) = (if w' = w then held w tr + 1 else held w tr)"
| "held w (E_large_release w' r # tr) = (if w' = w then held w tr - 1 else held w tr)"
| "held w (e # tr) = held w tr"

fun unacked :: "nat \<Rightarrow> event list \<Rightarrow> int" where
  "unacked w [] = 0"
| "unacked w (E_value w' k bs f e c # tr) = (if w' = w then unacked w tr + 1 else unacked w tr)"
| "unacked w (E_done w' # tr) = (if w' = w then unacked w tr - 1 else unacked w tr)"
| "unacked w (e # tr) = unacked w tr"

text \<open>
  The discipline of a trace: whenever a walker acquires a large value it holds none and has
  no delivery outstanding; whenever it delivers a value it has no delivery outstanding;
  whenever it releases a large value it holds exactly that one and the sink is done with it.
\<close>

fun back_pressure :: "event list \<Rightarrow> bool" where
  "back_pressure [] = True"
| "back_pressure (E_large_acquire w r # tr) =
     (held w tr = 0 \<and> unacked w tr = 0 \<and> back_pressure tr)"
| "back_pressure (E_value w k bs f e c # tr) = (unacked w tr = 0 \<and> back_pressure tr)"
| "back_pressure (E_large_release w r # tr) =
     (held w tr = 1 \<and> unacked w tr = 0 \<and> back_pressure tr)"
| "back_pressure (e # tr) = back_pressure tr"

definition tw :: "slice_t \<Rightarrow> nat \<Rightarrow> bool" where
  "tw s w =
     (held w (trace s) = (case walkers s w of None \<Rightarrow> 0
                           | Some wk \<Rightarrow> if large_value wk = None then 0 else 1) \<and>
      unacked w (trace s) = (if Done_callback w \<in> set (todo s) then 1 else 0) \<and>
      (Delete_this w \<in> set (todo s) \<longrightarrow>
         (case walkers s w of None \<Rightarrow> True | Some wk \<Rightarrow> large_value wk = None)))"

definition tinv :: "slice_t \<Rightarrow> bool" where
  "tinv s = (back_pressure (trace s) \<and> (\<forall>w. tw s w))"

section \<open>The snapshot of a slice and what a scan owes\<close>

text \<open>
  \<open>subtree_ok h bl b\<close>: below block \<open>b\<close> the blocks \<open>bl\<close> form a tree of height at most \<open>h\<close>
  (every path from \<open>b\<close> reaches a leaf within \<open>h\<close> steps). \<open>entries h bl b\<close> are the pairs of
  its leaves, in pair order.
\<close>

fun subtree_ok :: "nat \<Rightarrow> (block_id_t \<Rightarrow> node_t) \<Rightarrow> block_id_t \<Rightarrow> bool" where
  "subtree_ok 0 bl b = (case bl b of Leaf_node ps \<Rightarrow> True | Internal_node ps \<Rightarrow> False)"
| "subtree_ok (Suc h) bl b =
     (case bl b of Leaf_node ps \<Rightarrow> True
      | Internal_node ps \<Rightarrow> list_all (\<lambda>p. subtree_ok h bl (snd p)) ps)"

fun entries :: "nat \<Rightarrow> (block_id_t \<Rightarrow> node_t) \<Rightarrow> block_id_t \<Rightarrow> (store_key_t \<times> btree_value) list" where
  "entries 0 bl b = (case bl b of Leaf_node ps \<Rightarrow> ps | Internal_node ps \<Rightarrow> [])"
| "entries (Suc h) bl b =
     (case bl b of Leaf_node ps \<Rightarrow> ps
      | Internal_node ps \<Rightarrow> concat (map (\<lambda>p. entries h bl (snd p)) ps))"

definition tree_ok :: "nat \<Rightarrow> slice_t \<Rightarrow> bool" where
  "tree_ok h sl = (case root_block sl of None \<Rightarrow> True | Some r \<Rightarrow> subtree_ok h (blocks sl) r)"

definition snapshot :: "nat \<Rightarrow> slice_t \<Rightarrow> (store_key_t \<times> btree_value) list" where
  "snapshot h sl = (case root_block sl of None \<Rightarrow> [] | Some r \<Rightarrow> entries h (blocks sl) r)"


text \<open>
  \<open>clip seg\<close> is the part of a segment that a 16-bit size covers, and \<open>handed sl p\<close> what
  the walk hands to the sink for the entry \<open>p\<close>. \<open>segments_ok sl\<close>: the size of every segment
  fits the \<^verbatim>\<open>uint16_t\<close> it is passed in.
\<close>

definition clip :: "bytes \<Rightarrow> bytes" where
  "clip seg = take (unat (word_of_nat (length seg) :: 16 word)) seg"

definition handed :: "slice_t \<Rightarrow> store_key_t \<times> btree_value \<Rightarrow> store_key_t \<times> bytes" where
  "handed sl p =
     (fst p, case body (snd p) of Small bs \<Rightarrow> bs | Large r \<Rightarrow> concat (map clip (large_bufs sl r)))"


text \<open>The deliveries of a trace: the key and the bytes of the buffer group, newest first.\<close>

fun delivered :: "event list \<Rightarrow> (store_key_t \<times> bytes) list" where
  "delivered [] = []"
| "delivered (E_value w k bufs f e c # tr) = (k, concat bufs) # delivered tr"
| "delivered (ev # tr) = delivered tr"

definition leaf_rest ::
  "(nat \<rightharpoonup> branch_walker_t) \<Rightarrow> (block_id_t \<Rightarrow> node_t) \<Rightarrow> nat \<Rightarrow> nat \<Rightarrow>
    (store_key_t \<times> btree_value) list" where
  "leaf_rest ws bl w off =
     (case leaf_of ws bl w of None \<Rightarrow> [] | Some (wk, ps) \<Rightarrow> drop (nat (current_pair wk) + off) ps)"

fun remaining ::
  "nat \<Rightarrow> slice_t \<Rightarrow> (nat \<rightharpoonup> branch_walker_t) \<Rightarrow> cmd \<Rightarrow> (store_key_t \<times> btree_value) list" where
  "remaining h sl ws Start = snapshot h sl"
| "remaining h sl ws Superblock_available = snapshot h sl"
| "remaining h sl ws Release_superblock = []"
| "remaining h sl ws (Walk_branch b) = entries h (blocks sl) b"
| "remaining h sl ws (Block_available w b) = entries h (blocks sl) b"
| "remaining h sl ws (Delete_this w) = []"
| "remaining h sl ws (Large_buf_available w) = leaf_rest ws (blocks sl) w 0"
| "remaining h sl ws (Done_callback w) = leaf_rest ws (blocks sl) w 1"

fun cmd_ok :: "nat \<Rightarrow> (block_id_t \<Rightarrow> node_t) \<Rightarrow> cmd \<Rightarrow> bool" where
  "cmd_ok h bl (Walk_branch b) = subtree_ok h bl b"
| "cmd_ok h bl (Block_available w b) = subtree_ok h bl b"
| "cmd_ok h bl c = True"

definition owed ::
  "nat \<Rightarrow> slice_t \<Rightarrow> (nat \<rightharpoonup> branch_walker_t) \<Rightarrow> cmd \<Rightarrow> (store_key_t \<times> bytes) multiset" where
  "owed h sl ws c = mset (map (handed sl) (remaining h sl ws c))"

definition debt :: "nat \<Rightarrow> slice_t \<Rightarrow> slice_t \<Rightarrow> (store_key_t \<times> bytes) multiset" where
  "debt h sl s =
     sum_list (map (owed h sl (walkers s)) (todo s))
     + (if Start_msg \<in> set (inbox s) then mset (map (handed sl) (snapshot h sl)) else {#})"

text \<open>
  \<open>cinv h sl s\<close>, for the slice \<open>sl\<close> the walk started on: the walk reads the snapshot of
  \<open>sl\<close>, every block still to visit roots a tree, and what was delivered together with what
  the calls in flight still owe is the snapshot as it is handed over.
\<close>

definition cinv :: "nat \<Rightarrow> slice_t \<Rightarrow> slice_t \<Rightarrow> bool" where
  "cinv h sl s =
     (root_block s = root_block sl \<and> blocks s = blocks sl \<and> large_bufs s = large_bufs sl \<and>
      tree_ok h sl \<and>
      (\<forall>c \<in> set (todo s). cmd_ok h (blocks sl) c) \<and>
      mset (delivered (trace s)) + debt h sl s = mset (map (handed sl) (snapshot h sl)))"

section \<open>A bound on the work left\<close>

text \<open>
  \<open>tree_cost h bl b\<close> bounds the number of steps the walk of the tree below \<open>b\<close> takes once
  its block is available; \<open>cost\<close> bounds the steps a call in flight still causes, and
  \<open>slice_measure\<close> adds them up over the stack, the pending callbacks (one more step each:
  firing it) and the messages of the slice.
\<close>

fun tree_cost :: "nat \<Rightarrow> (block_id_t \<Rightarrow> node_t) \<Rightarrow> block_id_t \<Rightarrow> nat" where
  "tree_cost 0 bl b = (case bl b of Leaf_node ps \<Rightarrow> 1 + 4 * length ps | Internal_node ps \<Rightarrow> 0)"
| "tree_cost (Suc h) bl b =
     (case bl b of Leaf_node ps \<Rightarrow> 1 + 4 * length ps
      | Internal_node ps \<Rightarrow> 2 + sum_list (map (\<lambda>p. 2 + tree_cost h bl (snd p)) ps))"

fun cost :: "nat \<Rightarrow> slice_t \<Rightarrow> (nat \<rightharpoonup> branch_walker_t) \<Rightarrow> cmd \<Rightarrow> nat" where
  "cost h sl ws Start =
     3 + (case root_block sl of None \<Rightarrow> 0 | Some r \<Rightarrow> 3 + tree_cost h (blocks sl) r)"
| "cost h sl ws Superblock_available =
     1 + (case root_block sl of None \<Rightarrow> 0 | Some r \<Rightarrow> 3 + tree_cost h (blocks sl) r)"
| "cost h sl ws Release_superblock = 1"
| "cost h sl ws (Walk_branch b) = 2 + tree_cost h (blocks sl) b"
| "cost h sl ws (Block_available w b) = tree_cost h (blocks sl) b"
| "cost h sl ws (Delete_this w) = 1"
| "cost h sl ws (Large_buf_available w) = 3 + 4 * length (leaf_rest ws (blocks sl) w 1)"
| "cost h sl ws (Done_callback w) = 1 + 4 * length (leaf_rest ws (blocks sl) w 1)"

fun msg_cost :: "nat \<Rightarrow> slice_t \<Rightarrow> msg \<Rightarrow> nat" where
  "msg_cost h sl Start_msg = 1 + cost h sl Map.empty Start"
| "msg_cost h sl Uninstall_msg = 2"
| "msg_cost h sl m = 1"

definition slice_measure :: "nat \<Rightarrow> slice_t \<Rightarrow> slice_t \<Rightarrow> nat" where
  "slice_measure h sl s =
     sum_list (map (cost h sl (walkers s)) (stack s))
     + sum_list (map (\<lambda>c. 1 + cost h sl (walkers s) c) (pending s))
     + sum_list (map (msg_cost h sl) (inbox s))
     + length (outbox s)
     + (if txn s = Committed then 0 else 1)"

section \<open>Invariants of the store with its replicant\<close>

text \<open>
  What a step of a slice's own context leaves alone: the registry and the inbox (but for the
  \<^verbatim>\<open>start\<close> message it takes), and the outbox, to which only the commit of the transaction
  adds the one \<^verbatim>\<open>report\<close> message.
\<close>

definition frame :: "slice_t \<Rightarrow> slice_t \<Rightarrow> bool" where
  "frame s s' =
     (replicants s' = replicants s \<and>
      (inbox s' = inbox s \<or> inbox s = Start_msg # inbox s') \<and>
      ((outbox s' = outbox s \<and> (txn s' = txn s \<or> txn s = Not_begun \<and> txn s' = Open_txn)) \<or>
       (txn s = Open_txn \<and> txn s' = Committed \<and> outbox s' = outbox s @ [Report_msg])))"

text \<open>A scan is outstanding until its \<^verbatim>\<open>report\<close> has been taken by the replicant; an
  uninstallation is outstanding from \<^verbatim>\<open>stop\<close> until \<^verbatim>\<open>have_uninstalled\<close> has been taken.\<close>

definition scan_outstanding :: "slice_t \<Rightarrow> int" where
  "scan_outstanding sl = (if txn sl = Committed \<and> Report_msg \<notin> set (outbox sl) then 0 else 1)"

definition uninstall_outstanding :: "slice_t \<Rightarrow> int" where
  "uninstall_outstanding sl =
     (if Uninstall_msg \<in> set (inbox sl) \<or> Have_uninstalled_msg \<in> set (outbox sl) then 1 else 0)"

definition inbox_ok :: "bool \<Rightarrow> msg list \<Rightarrow> bool" where
  "inbox_ok st ms =
     (if st then ms \<in> {[Start_msg, Install_msg, Uninstall_msg], [Install_msg, Uninstall_msg],
                        [Uninstall_msg], []}
      else ms \<in> {[Start_msg, Install_msg], [Install_msg], []})"

text \<open>
  \<open>linked h st this sl0 sl\<close>: the slice \<open>sl\<close>, started as \<open>sl0\<close>, under a replicant \<open>this\<close>
  whose \<^verbatim>\<open>stopping\<close> flag is \<open>st\<close>.
\<close>

definition linked :: "nat \<Rightarrow> bool \<Rightarrow> nat \<Rightarrow> slice_t \<Rightarrow> slice_t \<Rightarrow> bool" where
  "linked h st this sl0 sl =
     (sinv sl \<and> tinv sl \<and> cinv h sl0 sl \<and>
      inbox_ok st (inbox sl) \<and>
      set (outbox sl) \<subseteq> {Report_msg, Have_uninstalled_msg} \<and>
      count_list (outbox sl) Have_uninstalled_msg \<le> 1 \<and>
      (Have_uninstalled_msg \<in> set (outbox sl) \<longrightarrow> st \<and> Uninstall_msg \<notin> set (inbox sl)) \<and>
      (Install_msg \<notin> set (inbox sl) \<and> (\<not> st \<or> Uninstall_msg \<in> set (inbox sl))
         \<longrightarrow> this \<in> set (replicants sl)))"

text \<open>
  The counters of the replicant against the numbers \<open>r\<close> of outstanding scans and \<open>u\<close> of
  outstanding uninstallations; \<open>ne\<close> says that the store has a slice.
\<close>

definition counters_ok ::
  "bool \<Rightarrow> int \<Rightarrow> int option \<Rightarrow> nat \<Rightarrow> bool \<Rightarrow> int \<Rightarrow> int \<Rightarrow> bool \<Rightarrow> bool" where
  "counters_ok st asw au sc del r u ne =
     (asw = r \<and> au = (if st then Some u else None) \<and> sc = (if del then 1 else 0) \<and>
      (del \<longrightarrow> st \<and> r = 0 \<and> u = 0) \<and>
      (st \<and> r = 0 \<and> u = 0 \<and> ne \<longrightarrow> del))"

definition winv :: "nat \<Rightarrow> nat \<Rightarrow> slice_t list \<Rightarrow> world \<Rightarrow> bool" where
  "winv h this sls s =
     (rfailure s = None \<and> self s = this \<and>
      list_all2 (linked h (stopping s) this) sls (slices s) \<and>
      counters_ok (stopping s) (active_slice_walkers s) (active_uninstallations s)
        (stopped_calls s) (deleted s)
        (\<Sum>i<length sls. scan_outstanding (slices s ! i))
        (\<Sum>i<length sls. uninstall_outstanding (slices s ! i)) (sls \<noteq> []))"

definition world_measure :: "nat \<Rightarrow> slice_t list \<Rightarrow> world \<Rightarrow> nat" where
  "world_measure h sls s =
     (\<Sum>i<length sls. slice_measure h (sls ! i) (slices s ! i))
     + (if stopping s then 0 else 1 + 2 * length sls)"

section \<open>Schedules\<close>

text \<open>
  A schedule fixes every choice the environment has: which context takes the next turn,
  whether a block acquisition or the sink completes at once, which pending callback fires.
  \<open>slice_fire\<close> and \<open>fire\<close> compute the step a choice selects (\<open>None\<close> when it is not
  enabled), \<open>slice_run\<close> and \<open>run_schedule\<close> follow a list of choices.
\<close>

datatype slice_choice = Run bool | Resume nat | Begin_walk

fun slice_fire :: "slice_choice \<Rightarrow> slice_t \<Rightarrow> slice_t option" where
  "slice_fire (Run now) s =
     (if failure s \<noteq> None then None
      else case stack s of [] \<Rightarrow> None | c # cs \<Rightarrow> Some (exec now c (s\<lparr>stack := cs\<rparr>)))"
| "slice_fire (Resume k) s =
     (if failure s = None \<and> stack s = [] \<and> k < length (pending s)
      then Some (s\<lparr>pending := take k (pending s) @ drop (Suc k) (pending s),
                  stack := [pending s ! k]\<rparr>)
      else None)"
| "slice_fire Begin_walk s =
     (if failure s = None \<and> stack s = []
      then (case inbox s of
              Start_msg # ms \<Rightarrow> Some (s\<lparr>inbox := ms, stack := [Start]\<rparr>)
            | _ \<Rightarrow> None)
      else None)"

fun slice_run :: "slice_choice list \<Rightarrow> slice_t \<Rightarrow> slice_t option" where
  "slice_run [] s = Some s"
| "slice_run (c # cs) s = (case slice_fire c s of None \<Rightarrow> None | Some s' \<Rightarrow> slice_run cs s')"

datatype choice =
    On_slice nat slice_choice
  | Take_install nat
  | Take_uninstall nat
  | Take_report nat
  | Take_have_uninstalled nat
  | Call_stop

fun fire :: "choice \<Rightarrow> world \<Rightarrow> world option" where
  "fire (On_slice i c) s =
     (if \<not> crashed s \<and> i < length (slices s)
      then (case slice_fire c (slices s ! i) of
              None \<Rightarrow> None
            | Some sl' \<Rightarrow> Some (s\<lparr>slices := (slices s)[i := sl']\<rparr>))
      else None)"
| "fire (Take_install i) s =
     (if \<not> crashed s \<and> i < length (slices s) \<and> stack (slices s ! i) = []
      then (case inbox (slices s ! i) of
              Install_msg # ms \<Rightarrow>
                Some (s\<lparr>slices := (slices s)[i := install (self s) ((slices s ! i)\<lparr>inbox := ms\<rparr>)]\<rparr>)
            | _ \<Rightarrow> None)
      else None)"
| "fire (Take_uninstall i) s =
     (if \<not> crashed s \<and> i < length (slices s) \<and> stack (slices s ! i) = []
      then (case inbox (slices s ! i) of
              Uninstall_msg # ms \<Rightarrow>
                Some (s\<lparr>slices := (slices s)[i := uninstall (stopping s) (self s)
                                                   ((slices s ! i)\<lparr>inbox := ms\<rparr>)]\<rparr>)
            | _ \<Rightarrow> None)
      else None)"
| "fire (Take_report i) s =
     (if \<not> crashed s \<and> i < length (slices s) \<and> Report_msg \<in> set (outbox (slices s ! i))
      then Some (slice_walker_done
             (s\<lparr>slices := (slices s)[i := (slices s ! i)
                   \<lparr>outbox := remove1 Report_msg (outbox (slices s ! i))\<rparr>]\<rparr>))
      else None)"
| "fire (Take_have_uninstalled i) s =
     (if \<not> crashed s \<and> i < length (slices s) \<and>
         Have_uninstalled_msg \<in> set (outbox (slices s ! i))
      then Some (have_uninstalled
             (s\<lparr>slices := (slices s)[i := (slices s ! i)
                   \<lparr>outbox := remove1 Have_uninstalled_msg (outbox (slices s ! i))\<rparr>]\<rparr>))
      else None)"
| "fire Call_stop s = (if \<not> crashed s \<and> \<not> stopping s then Some (stop s) else None)"

fun run_schedule :: "choice list \<Rightarrow> world \<Rightarrow> world option" where
  "run_schedule [] s = Some s"
| "run_schedule (c # cs) s = (case fire c s of None \<Rightarrow> None | Some s' \<Rightarrow> run_schedule cs s')"

text \<open>The whole walk of a slice when every acquisition and the sink complete at once:
  \<open>n\<close> calls after the \<^verbatim>\<open>start\<close> message is taken.\<close>

definition walk_now :: "nat \<Rightarrow> nat \<Rightarrow> choice list" where
  "walk_now i n = On_slice i Begin_walk # replicate n (On_slice i (Run True))"

text \<open>
  The states of the walk of a slice without a root, with the number of steps still to come:
  before \<^verbatim>\<open>start\<close>, in \<^verbatim>\<open>start\<close>, waiting for the superblock (as a pending callback or as
  a call), and after \<^verbatim>\<open>done()\<close>.
\<close>

definition empty_walk :: "nat \<Rightarrow> slice_t \<Rightarrow> bool" where
  "empty_walk n s =
     (root_block s = None \<and> failure s = None \<and> next_walker s = 0 \<and> walkers s = Map.empty \<and>
      active_branch_walkers s = 0 \<and>
      (n = 4 \<and> txn s = Not_begun \<and> stack s = [] \<and> pending s = [] \<and> inbox s = [Start_msg] \<and>
         outbox s = [] \<and> trace s = [] \<or>
       n = 3 \<and> txn s = Not_begun \<and> stack s = [Start] \<and> pending s = [] \<and> inbox s = [] \<and>
         outbox s = [] \<and> trace s = [] \<or>
       n = 2 \<and> txn s = Open_txn \<and> stack s = [] \<and> pending s = [Superblock_available] \<and>
         inbox s = [] \<and> outbox s = [] \<and> trace s = [E_acquire_super, E_begin] \<or>
       n = 1 \<and> txn s = Open_txn \<and> stack s = [Superblock_available] \<and> pending s = [] \<and>
         inbox s = [] \<and> outbox s = [] \<and> trace s = [E_acquire_super, E_begin] \<or>
       n = 0 \<and> txn s = Committed \<and> stack s = [] \<and> pending s = [] \<and> inbox s = [] \<and>
         outbox s = [Report_msg] \<and>
         trace s = [E_release_super, E_commit, E_acquire_super, E_begin]))"

text \<open>
  Two schedules on the store of shards A and B: in \<open>scans_only\<close> both scans run to their
  end and both reports are taken, and \<^verbatim>\<open>stop\<close> is not called; in \<open>stop_during_scans\<close>
  \<^verbatim>\<open>stop\<close> is called after the scan of shard B and before the scan of shard A.
\<close>

definition store_AB :: "slice_t list" where
  "store_AB = [shard_A, shard_B]"

definition scans_only :: "choice list" where
  "scans_only = walk_now 1 2 @ walk_now 0 8 @
     [Take_install 0, Take_install 1, Take_report 1, Take_report 0]"

definition stop_during_scans :: "choice list" where
  "stop_during_scans = walk_now 1 2 @ [Call_stop] @ walk_now 0 8 @
     [Take_install 0, Take_install 1, Take_report 1, Take_uninstall 1, Take_uninstall 0,
      Take_have_uninstalled 0, Take_report 0, Take_have_uninstalled 1]"

text \<open>
  The walk of shard C when every acquisition completes at once: \<open>shard_C_at_root\<close> is the
  state in which the block of the internal root is available to walker \<open>0\<close>;
  \<open>shard_C_first_child\<close> is the state three calls later, when the first child (walker \<open>1\<close>)
  has delivered its entry to a sink that has not yet invoked the done-continuation.
\<close>

definition shard_C_at_root :: slice_t where
  "shard_C_at_root = the (slice_run (Begin_walk # replicate 3 (Run True)) (walk_slice shard_C))"

definition shard_C_first_child :: slice_t where
  "shard_C_first_child =
     the (slice_run (Begin_walk # replicate 5 (Run True) @ [Run False]) (walk_slice shard_C))"

section \<open>Proofs\<close>

lemma owners_append [simp]: "owners (xs @ ys) = owners xs @ owners ys"
  by (induction xs) (auto split: option.splits)

lemma owner_in_owners: "c \<in> set cs \<Longrightarrow> owner c = Some w \<Longrightarrow> w \<in> set (owners cs)"
  by (induction cs) (auto split: option.splits)

lemma owners_walk [simp]: "owners (map (\<lambda>p. Walk_branch (f p)) ps) = []"
  by (induction ps) auto

lemma coherent_other:
  "w \<notin> set (owners cs) \<Longrightarrow> c \<in> set cs \<Longrightarrow> coherent (ws(w := x)) bl c = coherent ws bl c"
  by (cases c) (auto simp: leaf_of_def dest: owner_in_owners)

lemma guarded_append_walks:
  "guarded (map (\<lambda>p. Walk_branch (f p)) ps @ Delete_this w # cs) = guarded cs"
  by (induction ps) auto

lemma guarded_no_delete: "guarded cs \<Longrightarrow> \<forall>w. Delete_this w \<notin> set cs \<Longrightarrow> Walk_branch b \<notin> set cs"
  by (induction cs rule: guarded.induct) auto

lemma delete_in_owners: "Delete_this w \<in> set cs \<Longrightarrow> w \<in> set (owners cs)"
  by (rule owner_in_owners) auto

lemma sinv_begin_walk:
  assumes "sinv s" "stack s = []" "inbox s = Start_msg # ms"
  shows "sinv (s\<lparr>inbox := ms, stack := [Start]\<rparr>)"
  using assms unfolding sinv_def prewalk_def walking_def todo_def
  by (auto simp: count_list_0_iff split: if_splits)

lemma sinv_resume:
  assumes "sinv s" "stack s = []" "pending s = xs @ c # ys"
  shows "sinv (s\<lparr>pending := xs @ ys, stack := [c]\<rparr>)"
  using assms unfolding sinv_def prewalk_def walking_def todo_def
  apply (cases c)
  apply (auto simp: Cons_eq_append_conv append_eq_Cons_conv split: if_splits)
  done


lemmas sinv_defs = sinv_def prewalk_def walking_def todo_def

lemma sinv_start:
  assumes "sinv s" "stack s = Start # cs"
  shows "sinv (start now (s\<lparr>stack := cs\<rparr>))"
  using assms unfolding sinv_defs start_def hand_over_def emit_def
  by (auto split: if_splits)

lemma sinv_superblock:
  assumes "sinv s" "stack s = Superblock_available # cs"
  shows "sinv (slice_on_block_available (s\<lparr>stack := cs\<rparr>))"
  using assms unfolding sinv_defs slice_on_block_available_def slice_done_def emit_def crash_def
  by (auto split: if_splits option.splits)

lemma sinv_release_superblock:
  assumes "sinv s" "stack s = Release_superblock # cs"
  shows "sinv (emit E_release_super (s\<lparr>stack := cs\<rparr>))"
  using assms unfolding sinv_defs emit_def
  by (auto split: if_splits)

lemma sinvI:
  assumes "failure s = None"
    and "active_branch_walkers s = int (length (owners (todo s)))"
    and "distinct (owners (todo s))"
    and "dom (walkers s) = set (owners (todo s))"
    and "\<forall>w \<in> set (owners (todo s)). w < next_walker s"
    and "\<forall>c \<in> set (todo s). coherent (walkers s) (blocks s) c"
    and "n_constructed (trace s) = next_walker s"
    and "n_destroyed (trace s) + length (owners (todo s)) = next_walker s"
    and "count_list (outbox s) Report_msg \<le> 1"
    and "prewalk s \<or> walking s"
  shows "sinv s"
  using assms unfolding sinv_def by simp

lemma sinvD:
  assumes "sinv s"
  shows "failure s = None"
    and "active_branch_walkers s = int (length (owners (todo s)))"
    and "distinct (owners (todo s))"
    and "dom (walkers s) = set (owners (todo s))"
    and "\<forall>w \<in> set (owners (todo s)). w < next_walker s"
    and "\<forall>c \<in> set (todo s). coherent (walkers s) (blocks s) c"
    and "n_constructed (trace s) = next_walker s"
    and "n_destroyed (trace s) + length (owners (todo s)) = next_walker s"
    and "count_list (outbox s) Report_msg \<le> 1"
    and "prewalk s \<or> walking s"
  using assms unfolding sinv_def by simp_all

lemma prewalk_no_owner: "prewalk s \<Longrightarrow> owners (todo s) = []"
  unfolding prewalk_def by (auto simp: todo_def)

lemma todo_push [simp]: "todo (s\<lparr>stack := c # stack s\<rparr>) = c # todo s"
  by (simp add: todo_def)

lemma sinv_replace:
  assumes inv: "sinv (s\<lparr>stack := c # stack s\<rparr>)" and oc: "owner c = Some w"
    and own: "mset (owners (st' @ pd')) = add_mset w (mset (owners (todo s)))"
    and mem: "\<forall>x \<in> set (st' @ pd'). x \<in> set (todo s) \<or>
                (owner x = Some w \<and> coherent ((walkers s)(w \<mapsto> wk')) (blocks s) x) \<or>
                (\<exists>b. x = Walk_branch b)"
    and gd: "guarded st'" and cb: "\<forall>x \<in> set pd'. is_callback x"
    and tr: "n_constructed tr' = n_constructed (trace s)" "n_destroyed tr' = n_destroyed (trace s)"
            "n_commits tr' = n_commits (trace s)"
  shows "sinv (s\<lparr>walkers := (walkers s)(w \<mapsto> wk'), trace := tr', stack := st', pending := pd'\<rparr>)"
    (is "sinv ?s'")
proof -
  let ?s0 = "s\<lparr>stack := c # stack s\<rparr>"
  note d = sinvD[OF inv]
  have o0: "owners (todo ?s0) = w # owners (todo s)"
    using oc by simp
  have t': "todo ?s' = st' @ pd'"
    by (simp add: todo_def)
  have ms: "mset (owners (todo ?s')) = mset (owners (todo ?s0))"
    unfolding t' o0 using own by simp
  have len: "length (owners (todo ?s')) = length (owners (todo ?s0))"
    using ms by (rule mset_eq_length)
  have st: "set (owners (todo ?s')) = set (owners (todo ?s0))"
    using ms by (rule mset_eq_setD)
  have wn: "w \<notin> set (owners (todo s))"
    using d(3) unfolding o0 by simp
  have walk0: "walking ?s0"
    using d(10) prewalk_no_owner[of ?s0] unfolding o0 by auto
  show ?thesis
  proof (rule sinvI)
    show "failure ?s' = None" using d(1) by simp
    show "active_branch_walkers ?s' = int (length (owners (todo ?s')))"
      using d(2) unfolding len by simp
    show "distinct (owners (todo ?s'))"
      using d(3) ms by (metis mset_eq_imp_distinct_iff)
    show "dom (walkers ?s') = set (owners (todo ?s'))"
      unfolding st using d(4) unfolding o0 by auto
    show "\<forall>w \<in> set (owners (todo ?s')). w < next_walker ?s'"
      unfolding st using d(5) by simp
    show "\<forall>x \<in> set (todo ?s'). coherent (walkers ?s') (blocks ?s') x"
    proof
      fix x assume "x \<in> set (todo ?s')"
      then have x: "x \<in> set (st' @ pd')" unfolding t' .
      with mem consider "x \<in> set (todo s)"
        | "owner x = Some w \<and> coherent ((walkers s)(w \<mapsto> wk')) (blocks s) x"
        | "\<exists>b. x = Walk_branch b" by blast
      then show "coherent (walkers ?s') (blocks ?s') x"
      proof cases
        case 1
        then have "coherent (walkers s) (blocks s) x" using d(6) by simp
        then show ?thesis using coherent_other[OF wn 1] by simp
      next
        case 2 then show ?thesis by simp
      next
        case 3 then show ?thesis by auto
      qed
    qed
    show "n_constructed (trace ?s') = next_walker ?s'" using d(7) tr by simp
    show "n_destroyed (trace ?s') + length (owners (todo ?s')) = next_walker ?s'"
      unfolding len using d(8) tr by simp
    show "count_list (outbox ?s') Report_msg \<le> 1" using d(9) by simp
    have nS: "Start \<notin> set (st' @ pd')" "Superblock_available \<notin> set (st' @ pd')"
      using mem walk0 unfolding walking_def by (auto simp del: set_append)
    have ne: "owners (todo ?s') \<noteq> []"
      using len unfolding o0 by auto
    have "walking ?s'"
      using walk0 gd cb nS ne tr(3) unfolding walking_def t' o0
      by (auto simp del: set_append)
    then show "prewalk ?s' \<or> walking ?s'" ..
  qed
qed


lemma sinv_delete_this:
  assumes inv: "sinv (s\<lparr>stack := Delete_this w # stack s\<rparr>)"
  shows "sinv (delete_this w s)"
proof -
  let ?s0 = "s\<lparr>stack := Delete_this w # stack s\<rparr>"
  note d = sinvD[OF inv]
  have o0: "owners (todo ?s0) = w # owners (todo s)"
    by simp
  have wn: "w \<notin> set (owners (todo s))"
    using d(3) unfolding o0 by simp
  have walk0: "walking ?s0"
    using d(10) prewalk_no_owner[of ?s0] unfolding o0 by auto
  from d(6) obtain wk b where wk: "walkers s w = Some wk" "buf wk = Some b"
    by (auto split: option.splits)
  define s1 where "s1 = s\<lparr>walkers := (walkers s)(w := None),
      active_branch_walkers := active_branch_walkers s - 1,
      trace := E_destroy w # E_release w b # trace s\<rparr>"
  have eq: "delete_this w s = (if active_branch_walkers s1 = 0 then slice_done s1 else s1)"
    using wk unfolding delete_this_def s1_def emit_def by (simp add: Let_def)
  have t1: "todo s1 = todo s" by (simp add: s1_def todo_def)
  have op: "txn s = Open_txn" using walk0 unfolding walking_def o0 by simp
  have c1: "active_branch_walkers s1 = int (length (owners (todo s)))"
    using d(2) unfolding o0 s1_def by simp
  have base: "failure s1 = None" "distinct (owners (todo s1))"
    "dom (walkers s1) = set (owners (todo s1))"
    "\<forall>w \<in> set (owners (todo s1)). w < next_walker s1"
    "n_constructed (trace s1) = next_walker s1"
    "n_destroyed (trace s1) + length (owners (todo s1)) = next_walker s1"
    using d wn unfolding t1 o0 by (auto simp: s1_def)
  have co: "\<forall>c \<in> set (todo s1). coherent (walkers s1) (blocks s1) c"
    using d(6) wn unfolding t1 by (simp add: s1_def coherent_other)
  have nr: "Report_msg \<notin> set (outbox s)"
    using walk0 op unfolding walking_def by auto
  show ?thesis
  proof (cases "active_branch_walkers s1 = 0")
    case True
    then have e: "owners (todo s) = []" using c1 by simp
    have r: "delete_this w s = emit E_commit (s1\<lparr>txn := Committed, outbox := outbox s1 @ [Report_msg]\<rparr>)"
      unfolding eq slice_done_def using True op by (simp add: s1_def)
    have w: "walking (delete_this w s)"
      using walk0 e unfolding r walking_def emit_def
      by (auto simp: s1_def todo_def)
    show ?thesis
      apply (rule sinvI)
      using base co c1 nr w e unfolding r emit_def t1
      by (simp_all add: todo_def s1_def count_list_0_iff)
  next
    case False
    then have e: "owners (todo s) \<noteq> []" using c1 by simp
    have r: "delete_this w s = s1" unfolding eq using False by simp
    have w: "walking s1"
      using walk0 e unfolding walking_def
      by (auto simp: s1_def todo_def)
    show ?thesis
      unfolding r
      apply (rule sinvI)
      using base co c1 w d(9) unfolding t1
      by (simp_all add: s1_def)
  qed
qed

lemma have_copied_value_unfold:
  assumes wk: "walkers s w = Some wk" "buf wk = Some b" "blocks s b = Leaf_node ps"
    and cp: "- 1 \<le> current_pair wk" "current_pair wk < int (length ps)"
  shows "have_copied_value now w s =
    (let i = nat (current_pair wk + 1); k = fst (ps ! i); v = snd (ps ! i);
         wk2 = wk\<lparr>current_pair := current_pair wk + 1, current_key := Some k, current_value := Some v\<rparr>
     in if i = length ps
        then delete_this w (s\<lparr>walkers := (walkers s)(w \<mapsto> wk\<lparr>current_pair := current_pair wk + 1\<rparr>),
                                trace := released w wk @ trace s\<rparr>)
        else (case body v of
                Large r \<Rightarrow>
                  hand_over now (Large_buf_available w)
                    (s\<lparr>walkers := (walkers s)(w \<mapsto> wk2\<lparr>large_value := Some r\<rparr>),
                       trace := E_large_acquire w r # released w wk @ trace s\<rparr>)
              | Small bs \<Rightarrow>
                  hand_over now (Done_callback w)
                    (s\<lparr>walkers := (walkers s)(w \<mapsto> wk2\<lparr>large_value := None, buffers := [bs]\<rparr>),
                       trace := E_value w k [bs] (mcflags v) (exptime v) (if has_cas v then cas v else 0)
                                # released w wk @ trace s\<rparr>)))"
proof -
  have i: "int (nat (current_pair wk + 1)) = current_pair wk + 1"
    using cp by simp
  have eq: "(current_pair wk + 1 = int (length ps)) = (nat (current_pair wk + 1) = length ps)"
    using cp by linarith
  show ?thesis
    unfolding have_copied_value_def deliver_value_def released_def Let_def
    using wk cp
    by (cases "large_value wk")
       (auto simp: emit_def eq split: value_body.splits
          intro!: arg_cong[where f="delete_this w"]
                  arg_cong[where f="hand_over now (Large_buf_available w)"]
                  arg_cong[where f="hand_over now (Done_callback w)"])
qed

lemma on_large_buf_available_unfold:
  assumes "walkers s w = Some wk" "large_value wk = Some r"
    "current_key wk = Some k" "current_value wk = Some v"
  shows "on_large_buf_available now w s =
    hand_over now (Done_callback w)
      (s\<lparr>walkers := (walkers s)(w \<mapsto> wk\<lparr>buffers := add_segments (large_bufs s r) 0 []\<rparr>),
         trace := E_value w k (add_segments (large_bufs s r) 0 []) (mcflags v) (exptime v)
                    (if has_cas v then cas v else 0) # trace s\<rparr>)"
  using assms unfolding on_large_buf_available_def deliver_value_def
  by (auto simp: emit_def intro!: arg_cong[where f="hand_over now (Done_callback w)"])

lemma on_block_available_unfold:
  assumes "walkers s w = Some wk"
  shows "on_block_available now w b s =
    (case blocks s b of
       Internal_node ps \<Rightarrow>
         s\<lparr>walkers := (walkers s)(w \<mapsto> wk\<lparr>buf := Some b\<rparr>),
           stack := map (\<lambda>p. Walk_branch (snd p)) ps @ Delete_this w # stack s\<rparr>
     | Leaf_node ps \<Rightarrow>
         have_copied_value now w
           (s\<lparr>walkers := (walkers s)(w \<mapsto> wk\<lparr>buf := Some b, current_pair := - 1, large_value := None\<rparr>)\<rparr>))"
  using assms unfolding on_block_available_def
  by (auto split: node_t.splits intro!: arg_cong[where f="have_copied_value now w"])

lemma delete_this_unfold:
  assumes "walkers s w = Some wk" "buf wk = Some b"
  shows "delete_this w s =
    (let s1 = s\<lparr>walkers := (walkers s)(w := None),
                 active_branch_walkers := active_branch_walkers s - 1,
                 trace := E_destroy w # E_release w b # trace s\<rparr>
     in if active_branch_walkers s = 1 then slice_done s1 else s1)"
  using assms unfolding delete_this_def
  by (auto simp: emit_def Let_def intro!: arg_cong[where f="slice_done"])

lemma walk_branch_unfold:
  "walk_branch now b s =
     hand_over now (Block_available (next_walker s) b)
       (s\<lparr>next_walker := Suc (next_walker s),
          walkers := (walkers s)(next_walker s \<mapsto> new_walker),
          active_branch_walkers := active_branch_walkers s + 1,
          trace := E_acquire (next_walker s) b # E_construct (next_walker s) # trace s\<rparr>)"
  unfolding walk_branch_def
  by (auto simp: emit_def Let_def intro!: arg_cong[where f="hand_over now (Block_available (next_walker s) b)"])

lemma pop_push: "stack s = c # cs \<Longrightarrow> (s\<lparr>stack := cs\<rparr>)\<lparr>stack := c # stack (s\<lparr>stack := cs\<rparr>)\<rparr> = s"
  by simp

lemma sinv_active:
  assumes "sinv (s\<lparr>stack := c # stack s\<rparr>)" "owner c = Some w"
  shows "w \<notin> set (owners (todo s))" "guarded (stack s)" "\<forall>x \<in> set (pending s). is_callback x"
    "txn s = Open_txn" "walkers s w \<noteq> None" "coherent (walkers s) (blocks s) c" "failure s = None"
proof -
  let ?s0 = "s\<lparr>stack := c # stack s\<rparr>"
  note d = sinvD[OF assms(1)]
  have o0: "owners (todo ?s0) = w # owners (todo s)"
    using assms(2) by simp
  show "w \<notin> set (owners (todo s))"
    using d(3) unfolding o0 by simp
  have walk0: "walking ?s0"
    using d(10) prewalk_no_owner[of ?s0] unfolding o0 by auto
  show "guarded (stack s)"
    using walk0 assms(2) unfolding walking_def by (cases c) auto
  show "\<forall>x \<in> set (pending s). is_callback x" "txn s = Open_txn"
    using walk0 unfolding walking_def o0 by auto
  show "walkers s w \<noteq> None"
    using d(4) unfolding o0 by auto
  show "coherent (walkers s) (blocks s) c" using d(6) by simp
  show "failure s = None" using d(1) by simp
qed

lemma sinv_hand_over:
  assumes inv: "sinv (s\<lparr>stack := c # stack s\<rparr>)" and oc: "owner c = Some w"
    and oc': "owner c' = Some w" "is_callback c'"
    and co: "coherent ((walkers s)(w \<mapsto> wk')) (blocks s) c'"
    and tr: "n_constructed tr' = n_constructed (trace s)" "n_destroyed tr' = n_destroyed (trace s)"
            "n_commits tr' = n_commits (trace s)"
  shows "sinv (hand_over now c' (s\<lparr>walkers := (walkers s)(w \<mapsto> wk'), trace := tr'\<rparr>))"
proof -
  note a = sinv_active[OF inv oc]
  have g: "guarded (c' # stack s)" using a(2) oc'(2) by (cases c') auto
  show ?thesis
  proof (cases now)
    case True
    have e: "hand_over now c' (s\<lparr>walkers := (walkers s)(w \<mapsto> wk'), trace := tr'\<rparr>) =
        s\<lparr>walkers := (walkers s)(w \<mapsto> wk'), trace := tr', stack := c' # stack s, pending := pending s\<rparr>"
      using True by (simp add: hand_over_def)
    show ?thesis unfolding e
      by (rule sinv_replace[OF inv oc _ _ g a(3) tr]) (use oc' co in \<open>auto simp: todo_def\<close>)
  next
    case False
    have e: "hand_over now c' (s\<lparr>walkers := (walkers s)(w \<mapsto> wk'), trace := tr'\<rparr>) =
        s\<lparr>walkers := (walkers s)(w \<mapsto> wk'), trace := tr', stack := stack s, pending := pending s @ [c']\<rparr>"
      using False by (simp add: hand_over_def)
    show ?thesis unfolding e
      by (rule sinv_replace[OF inv oc _ _ a(2) _ tr]) (use oc' co a(3) in \<open>auto simp: todo_def\<close>)
  qed
qed

lemma n_released [simp]:
  "n_constructed (released w wk @ tr) = n_constructed tr"
  "n_destroyed (released w wk @ tr) = n_destroyed tr"
  "n_commits (released w wk @ tr) = n_commits tr"
  by (simp_all add: released_def split: option.splits)

lemma sinv_have_copied_value:
  assumes inv: "sinv (s\<lparr>stack := Delete_this w # stack s\<rparr>)"
    and wk: "walkers s w = Some wk" "buf wk = Some b" "blocks s b = Leaf_node ps"
    and cp: "- 1 \<le> current_pair wk" "current_pair wk < int (length ps)"
  shows "sinv (have_copied_value now w s)"
proof -
  let ?i = "nat (current_pair wk + 1)"
  have oc: "owner (Delete_this w) = Some w" by simp
  note a = sinv_active[OF inv oc]
  have i: "?i \<le> length ps" "0 \<le> current_pair wk + 1" using cp by auto
  show ?thesis
  proof (cases "?i = length ps")
    case True
    let ?s1 = "s\<lparr>walkers := (walkers s)(w \<mapsto> wk\<lparr>current_pair := current_pair wk + 1\<rparr>),
                  trace := released w wk @ trace s\<rparr>"
    have e: "have_copied_value now w s = delete_this w ?s1"
      unfolding have_copied_value_unfold[OF wk cp] using True by (simp add: Let_def)
    have "sinv (s\<lparr>walkers := (walkers s)(w \<mapsto> wk\<lparr>current_pair := current_pair wk + 1\<rparr>),
                  trace := released w wk @ trace s, stack := Delete_this w # stack s,
                  pending := pending s\<rparr>)"
      by (rule sinv_replace[OF inv oc _ _ _ a(3)])
         (use a(2) wk in \<open>auto simp: todo_def\<close>)
    then have "sinv (?s1\<lparr>stack := Delete_this w # stack ?s1\<rparr>)" by simp
    then show ?thesis unfolding e by (rule sinv_delete_this)
  next
    case False
    then have lt: "?i < length ps" using i by simp
    show ?thesis
    proof (cases "body (snd (ps ! ?i))")
      case (Large r)
      show ?thesis
        unfolding have_copied_value_unfold[OF wk cp] Let_def using False Large
        apply simp
        apply (rule sinv_hand_over[OF inv oc])
        using wk lt i by (simp_all add: leaf_of_def)
    next
      case (Small bs)
      show ?thesis
        unfolding have_copied_value_unfold[OF wk cp] Let_def using False Small
        apply (simp split del: if_split)
        apply (rule sinv_hand_over[OF inv oc])
        using wk lt i by (simp_all add: leaf_of_def)
    qed
  qed
qed

lemma sinv_done_callback:
  assumes inv: "sinv s" and st: "stack s = Done_callback w # cs"
  shows "sinv (have_copied_value now w (emit (E_done w) (s\<lparr>stack := cs\<rparr>)))"
proof -
  let ?s0 = "s\<lparr>stack := cs\<rparr>"
  have inv0: "sinv (?s0\<lparr>stack := Done_callback w # stack ?s0\<rparr>)"
    unfolding pop_push[OF st] by (rule inv)
  have oc: "owner (Done_callback w) = Some w" by simp
  note a = sinv_active[OF inv0 oc]
  from a(6) obtain wk b ps where wk: "walkers s w = Some wk" "buf wk = Some b"
      "blocks s b = Leaf_node ps" "0 \<le> current_pair wk" "nat (current_pair wk) < length ps"
    by (auto simp: leaf_of_def split: option.splits node_t.splits)
  let ?s1 = "emit (E_done w) ?s0"
  have e: "?s1\<lparr>stack := Delete_this w # stack ?s1\<rparr> =
      ?s0\<lparr>walkers := (walkers ?s0)(w \<mapsto> wk), trace := E_done w # trace ?s0,
          stack := Delete_this w # stack ?s0, pending := pending ?s0\<rparr>"
    using wk(1) by (simp add: emit_def map_upd_triv)
  have "sinv (?s1\<lparr>stack := Delete_this w # stack ?s1\<rparr>)"
    unfolding e
    by (rule sinv_replace[OF inv0 oc _ _ _ a(3)]) (use a(2) wk in \<open>auto simp: todo_def\<close>)
  then show ?thesis
    by (rule sinv_have_copied_value) (use wk in \<open>auto simp: emit_def\<close>)
qed

lemma sinv_on_block_available:
  assumes inv: "sinv s" and st: "stack s = Block_available w b # cs"
  shows "sinv (on_block_available now w b (s\<lparr>stack := cs\<rparr>))"
proof -
  let ?s0 = "s\<lparr>stack := cs\<rparr>"
  have inv0: "sinv (?s0\<lparr>stack := Block_available w b # stack ?s0\<rparr>)"
    unfolding pop_push[OF st] by (rule inv)
  have oc: "owner (Block_available w b) = Some w" by simp
  note a = sinv_active[OF inv0 oc]
  from a(5) obtain wk where wk: "walkers ?s0 w = Some wk" by auto
  show ?thesis
  proof (cases "blocks s b")
    case (Internal_node ps)
    have e: "on_block_available now w b ?s0 =
        ?s0\<lparr>walkers := (walkers ?s0)(w \<mapsto> wk\<lparr>buf := Some b\<rparr>), trace := trace ?s0,
            stack := map (\<lambda>p. Walk_branch (snd p)) ps @ Delete_this w # stack ?s0,
            pending := pending ?s0\<rparr>"
      unfolding on_block_available_unfold[OF wk] using Internal_node by simp
    show ?thesis unfolding e
      by (rule sinv_replace[OF inv0 oc _ _ _ a(3)])
         (use a(2) in \<open>auto simp: todo_def guarded_append_walks\<close>)
  next
    case (Leaf_node ps)
    let ?wk = "wk\<lparr>buf := Some b, current_pair := - 1, large_value := None\<rparr>"
    let ?s1 = "?s0\<lparr>walkers := (walkers ?s0)(w \<mapsto> ?wk)\<rparr>"
    have e: "on_block_available now w b ?s0 = have_copied_value now w ?s1"
      unfolding on_block_available_unfold[OF wk] using Leaf_node by simp
    have e1: "?s1\<lparr>stack := Delete_this w # stack ?s1\<rparr> =
        ?s0\<lparr>walkers := (walkers ?s0)(w \<mapsto> ?wk), trace := trace ?s0,
            stack := Delete_this w # stack ?s0, pending := pending ?s0\<rparr>"
      by simp
    have "sinv (?s1\<lparr>stack := Delete_this w # stack ?s1\<rparr>)"
      unfolding e1
      by (rule sinv_replace[OF inv0 oc _ _ _ a(3)]) (use a(2) in \<open>auto simp: todo_def\<close>)
    then show ?thesis unfolding e
      by (rule sinv_have_copied_value[where wk="?wk" and b=b and ps=ps])
         (use Leaf_node in auto)
  qed
qed

lemma sinv_on_large_buf_available:
  assumes inv: "sinv s" and st: "stack s = Large_buf_available w # cs"
  shows "sinv (on_large_buf_available now w (s\<lparr>stack := cs\<rparr>))"
proof -
  let ?s0 = "s\<lparr>stack := cs\<rparr>"
  have inv0: "sinv (?s0\<lparr>stack := Large_buf_available w # stack ?s0\<rparr>)"
    unfolding pop_push[OF st] by (rule inv)
  have oc: "owner (Large_buf_available w) = Some w" by simp
  note a = sinv_active[OF inv0 oc]
  from a(6) obtain wk b ps r where wk: "walkers ?s0 w = Some wk" "buf wk = Some b"
      "blocks s b = Leaf_node ps" "0 \<le> current_pair wk" "nat (current_pair wk) < length ps"
      "current_key wk = Some (fst (ps ! nat (current_pair wk)))"
      "current_value wk = Some (snd (ps ! nat (current_pair wk)))"
      "large_value wk = Some r"
    by (auto simp: leaf_of_def split: option.splits node_t.splits)
  show ?thesis
    unfolding on_large_buf_available_unfold[OF wk(1,8,6,7)]
    by (rule sinv_hand_over[OF inv0 oc]) (use wk in \<open>auto simp: leaf_of_def\<close>)
qed

lemma sinv_walk_branch:
  assumes inv: "sinv s" and st: "stack s = Walk_branch b # cs"
  shows "sinv (walk_branch now b (s\<lparr>stack := cs\<rparr>))"
proof -
  let ?w = "next_walker s"
  let ?c = "Block_available ?w b"
  note d = sinvD[OF inv]
  have t: "todo s = Walk_branch b # cs @ pending s" using st by (simp add: todo_def)
  have o: "owners (todo s) = owners (cs @ pending s)" unfolding t by simp
  have wn: "?w \<notin> set (owners (cs @ pending s))" using d(5) unfolding o by auto
  have op: "txn s = Open_txn \<and> guarded cs \<and> Start \<notin> set (cs @ pending s) \<and>
      Superblock_available \<notin> set (cs @ pending s) \<and> (\<forall>x \<in> set (pending s). is_callback x) \<and>
      Start_msg \<notin> set (inbox s) \<and> n_commits (trace s) = 0 \<and> Report_msg \<notin> set (outbox s)"
  proof -
    from d(10) show ?thesis
    proof
      assume "prewalk s" then show ?thesis using st unfolding prewalk_def by auto
    next
      assume w: "walking s"
      then obtain w' where "Delete_this w' \<in> set cs"
        using st unfolding walking_def by auto
      then have "owners (todo s) \<noteq> []"
        unfolding o using delete_in_owners[of w' "cs @ pending s"] by auto
      then show ?thesis using w st unfolding walking_def t by auto
    qed
  qed
  define st' where "st' = (if now then ?c # cs else cs)"
  define pd' where "pd' = (if now then pending s else pending s @ [?c])"
  define s' where "s' = s\<lparr>next_walker := Suc ?w, walkers := (walkers s)(?w \<mapsto> new_walker),
          active_branch_walkers := active_branch_walkers s + 1,
          trace := E_acquire ?w b # E_construct ?w # trace s, stack := st', pending := pd'\<rparr>"
  have e: "walk_branch now b (s\<lparr>stack := cs\<rparr>) = s'"
    unfolding walk_branch_unfold hand_over_def s'_def st'_def pd'_def by simp
  have t': "todo s' = st' @ pd'" by (simp add: s'_def todo_def)
  have ms: "mset (owners (st' @ pd')) = mset (?w # owners (cs @ pending s))"
    by (simp add: st'_def pd'_def)
  have len: "length (owners (st' @ pd')) = Suc (length (owners (cs @ pending s)))"
    using mset_eq_length[OF ms] by simp
  have set': "set (owners (st' @ pd')) = insert ?w (set (owners (cs @ pending s)))"
    using mset_eq_setD[OF ms] by simp
  have mem: "set (st' @ pd') = insert ?c (set (cs @ pending s))"
    by (auto simp: st'_def pd'_def)
  show ?thesis unfolding e
  proof (rule sinvI)
    show "failure s' = None" using d(1) by (simp add: s'_def)
    show "active_branch_walkers s' = int (length (owners (todo s')))"
      unfolding t' len using d(2) unfolding o by (simp add: s'_def)
    show "distinct (owners (todo s'))"
    proof -
      have "distinct (?w # owners (cs @ pending s))" using d(3) wn unfolding o by simp
      then show ?thesis unfolding t' using ms by (metis mset_eq_imp_distinct_iff)
    qed
    show "dom (walkers s') = set (owners (todo s'))"
      unfolding t' set' using d(4) unfolding o by (simp add: s'_def)
    show "\<forall>w \<in> set (owners (todo s')). w < next_walker s'"
      unfolding t' set' using d(5) unfolding o by (fastforce simp: s'_def)
    show "\<forall>c \<in> set (todo s'). coherent (walkers s') (blocks s') c"
    proof
      fix x assume "x \<in> set (todo s')"
      then consider "x = ?c" | "x \<in> set (cs @ pending s)" unfolding t' mem by blast
      then show "coherent (walkers s') (blocks s') x"
      proof cases
        case 1 then show ?thesis by (simp add: s'_def new_walker_def)
      next
        case 2
        then have "coherent (walkers s) (blocks s) x" using d(6) unfolding t by simp
        then show ?thesis using coherent_other[OF wn 2] by (simp add: s'_def)
      qed
    qed
    show "n_constructed (trace s') = next_walker s'" using d(7) by (simp add: s'_def)
    show "n_destroyed (trace s') + length (owners (todo s')) = next_walker s'"
      unfolding t' len using d(8) unfolding o by (simp add: s'_def)
    show "count_list (outbox s') Report_msg \<le> 1" using d(9) by (simp add: s'_def)
    have "walking s'"
      unfolding walking_def t' mem
      using op len by (auto simp: s'_def st'_def pd'_def)
    then show "prewalk s' \<or> walking s'" ..
  qed
qed

lemma sinv_exec:
  assumes "sinv s" "stack s = c # cs"
  shows "sinv (exec now c (s\<lparr>stack := cs\<rparr>))"
proof (cases c)
  case Start
  then show ?thesis using sinv_start[OF assms(1)] assms(2) by simp
next
  case Superblock_available
  then show ?thesis using sinv_superblock[OF assms(1)] assms(2) by simp
next
  case Release_superblock
  then show ?thesis using sinv_release_superblock[OF assms(1)] assms(2) by simp
next
  case (Walk_branch b)
  then show ?thesis using sinv_walk_branch[OF assms(1)] assms(2) by simp
next
  case (Block_available w b)
  then show ?thesis using sinv_on_block_available[OF assms(1)] assms(2) by simp
next
  case (Delete_this w)
  have "sinv ((s\<lparr>stack := cs\<rparr>)\<lparr>stack := Delete_this w # stack (s\<lparr>stack := cs\<rparr>)\<rparr>)"
    using assms Delete_this by (simp only: pop_push)
  then show ?thesis using Delete_this sinv_delete_this by simp
next
  case (Large_buf_available w)
  then show ?thesis using sinv_on_large_buf_available[OF assms(1)] assms(2) by simp
next
  case (Done_callback w)
  then show ?thesis using sinv_done_callback[OF assms(1)] assms(2) by simp
qed

lemma sinv_slice_step: "slice_step s s' \<Longrightarrow> sinv s \<Longrightarrow> sinv s'"
  by (induction rule: slice_step.induct) (auto intro: sinv_exec sinv_resume sinv_begin_walk)

lemma mem_owner: "c \<in> set cs \<Longrightarrow> owner c = Some w \<Longrightarrow> w \<notin> set (owners cs) \<Longrightarrow> False"
  by (auto dest: owner_in_owners)

lemma tinv_have_copied_value:
  assumes bp: "back_pressure (trace s)" and others: "\<forall>w'. w' \<noteq> w \<longrightarrow> tw s w'"
    and h: "held w (trace s) = (if large_value wk = None then 0 else 1)"
    and u: "unacked w (trace s) = 0"
    and wn: "w \<notin> set (owners (todo s))"
    and wk: "walkers s w = Some wk" "buf wk = Some b" "blocks s b = Leaf_node ps"
    and cp: "- 1 \<le> current_pair wk" "current_pair wk < int (length ps)"
  shows "tinv (have_copied_value now w s)"
proof -
  have nd: "Done_callback w \<notin> set (stack s)" "Done_callback w \<notin> set (pending s)"
     "Delete_this w \<notin> set (stack s)" "Delete_this w \<notin> set (pending s)"
    using wn by (auto simp: todo_def dest: owner_in_owners)
  show ?thesis
    unfolding have_copied_value_unfold[OF wk cp] delete_this_unfold Let_def
    using bp others h u nd wk
    apply (cases "large_value wk")
    apply (auto simp: tinv_def tw_def hand_over_def released_def todo_def delete_this_def
        slice_done_def emit_def crash_def Let_def
        split: value_body.splits if_splits option.splits)
    done
qed


lemma tinv_simple:
  assumes "tinv s"
  shows "stack s = [] \<Longrightarrow> tinv (s\<lparr>inbox := ms, stack := [Start]\<rparr>)"
    and "stack s = [] \<Longrightarrow> pending s = xs @ c # ys \<Longrightarrow> tinv (s\<lparr>pending := xs @ ys, stack := [c]\<rparr>)"
    and "stack s = Start # cs \<Longrightarrow> tinv (start now (s\<lparr>stack := cs\<rparr>))"
    and "stack s = Superblock_available # cs \<Longrightarrow> tinv (slice_on_block_available (s\<lparr>stack := cs\<rparr>))"
    and "stack s = Release_superblock # cs \<Longrightarrow> tinv (emit E_release_super (s\<lparr>stack := cs\<rparr>))"
  using assms
  by (auto simp: tinv_def tw_def todo_def start_def hand_over_def emit_def
      slice_on_block_available_def slice_done_def crash_def split: option.split)

lemma fresh_walker:
  assumes "sinv s"
  shows "next_walker s \<notin> set (owners (todo s))" "walkers s (next_walker s) = None"
proof -
  note d = sinvD[OF assms]
  show "next_walker s \<notin> set (owners (todo s))" using d(5) by auto
  then show "walkers s (next_walker s) = None" using d(4) by auto
qed

lemma tinv_walk_branch:
  assumes inv: "sinv s" and t: "tinv s" and st: "stack s = Walk_branch b # cs"
  shows "tinv (walk_branch now b (s\<lparr>stack := cs\<rparr>))"
proof -
  note f = fresh_walker[OF inv]
  have nd: "Done_callback (next_walker s) \<notin> set (todo s)" "Delete_this (next_walker s) \<notin> set (todo s)"
    using f(1) by (auto dest: owner_in_owners)
  show ?thesis
    unfolding walk_branch_unfold
    using t f(2) nd st
    by (auto simp: tinv_def tw_def hand_over_def todo_def new_walker_def split: option.splits)
qed

lemma tinv_delete_this:
  assumes inv: "sinv s" and t: "tinv s" and st: "stack s = Delete_this w # cs"
  shows "tinv (delete_this w (s\<lparr>stack := cs\<rparr>))"
proof -
  let ?s0 = "s\<lparr>stack := cs\<rparr>"
  have inv0: "sinv (?s0\<lparr>stack := Delete_this w # stack ?s0\<rparr>)"
    unfolding pop_push[OF st] by (rule inv)
  have oc: "owner (Delete_this w) = Some w" by simp
  note a = sinv_active[OF inv0 oc]
  from a(6) obtain wk b where wk: "walkers ?s0 w = Some wk" "buf wk = Some b"
    by (auto split: option.splits)
  have nd: "Done_callback w \<notin> set cs" "Done_callback w \<notin> set (pending s)"
     "Delete_this w \<notin> set cs" "Delete_this w \<notin> set (pending s)"
    using a(1) by (auto simp: todo_def dest: owner_in_owners)
  show ?thesis
    unfolding delete_this_unfold[OF wk] Let_def
    using t st wk nd
    by (auto simp: tinv_def tw_def todo_def slice_done_def emit_def crash_def
        split: option.splits if_splits)
qed

lemma tinv_on_large_buf_available:
  assumes inv: "sinv s" and t: "tinv s" and st: "stack s = Large_buf_available w # cs"
  shows "tinv (on_large_buf_available now w (s\<lparr>stack := cs\<rparr>))"
proof -
  let ?s0 = "s\<lparr>stack := cs\<rparr>"
  have inv0: "sinv (?s0\<lparr>stack := Large_buf_available w # stack ?s0\<rparr>)"
    unfolding pop_push[OF st] by (rule inv)
  have oc: "owner (Large_buf_available w) = Some w" by simp
  note a = sinv_active[OF inv0 oc]
  from a(6) obtain wk b ps r where wk: "walkers ?s0 w = Some wk" "buf wk = Some b"
      "blocks s b = Leaf_node ps" "0 \<le> current_pair wk" "nat (current_pair wk) < length ps"
      "current_key wk = Some (fst (ps ! nat (current_pair wk)))"
      "current_value wk = Some (snd (ps ! nat (current_pair wk)))"
      "large_value wk = Some r"
    by (auto simp: leaf_of_def split: option.splits node_t.splits)
  have nd: "Done_callback w \<notin> set cs" "Done_callback w \<notin> set (pending s)"
     "Delete_this w \<notin> set cs" "Delete_this w \<notin> set (pending s)"
    using a(1) by (auto simp: todo_def dest: owner_in_owners)
  show ?thesis
    unfolding on_large_buf_available_unfold[OF wk(1,8,6,7)]
    using t st wk(1,8) nd
    by (auto simp: tinv_def tw_def todo_def hand_over_def split: option.splits if_splits)
qed

lemma tinv_done_callback:
  assumes inv: "sinv s" and t: "tinv s" and st: "stack s = Done_callback w # cs"
  shows "tinv (have_copied_value now w (emit (E_done w) (s\<lparr>stack := cs\<rparr>)))"
proof -
  let ?s0 = "s\<lparr>stack := cs\<rparr>"
  have inv0: "sinv (?s0\<lparr>stack := Done_callback w # stack ?s0\<rparr>)"
    unfolding pop_push[OF st] by (rule inv)
  have oc: "owner (Done_callback w) = Some w" by simp
  note a = sinv_active[OF inv0 oc]
  from a(6) obtain wk b ps where wk: "walkers s w = Some wk" "buf wk = Some b"
      "blocks s b = Leaf_node ps" "0 \<le> current_pair wk" "nat (current_pair wk) < length ps"
    by (auto simp: leaf_of_def split: option.splits node_t.splits)
  have nd: "Done_callback w \<notin> set cs" "Done_callback w \<notin> set (pending s)"
     "Delete_this w \<notin> set cs" "Delete_this w \<notin> set (pending s)"
    using a(1) by (auto simp: todo_def dest: owner_in_owners)
  have tws: "\<forall>w'. tw s w'" and bp: "back_pressure (trace s)" using t unfolding tinv_def by auto
  show ?thesis
  proof (rule tinv_have_copied_value[where wk=wk and b=b and ps=ps])
    show "back_pressure (trace (emit (E_done w) ?s0))" using bp by (simp add: emit_def)
    show "\<forall>w'. w' \<noteq> w \<longrightarrow> tw (emit (E_done w) ?s0) w'"
      using tws st nd unfolding tw_def by (auto simp: emit_def todo_def)
    show "held w (trace (emit (E_done w) ?s0)) = (if large_value wk = None then 0 else 1)"
      using tws[rule_format, of w] wk(1) unfolding tw_def by (simp add: emit_def)
    show "unacked w (trace (emit (E_done w) ?s0)) = 0"
      using tws[rule_format, of w] st unfolding tw_def by (simp add: emit_def todo_def)
    show "w \<notin> set (owners (todo (emit (E_done w) ?s0)))"
      using a(1) by (simp add: emit_def todo_def)
  qed (use wk in \<open>auto simp: emit_def\<close>)
qed

lemma tinv_on_block_available:
  assumes inv: "sinv s" and t: "tinv s" and st: "stack s = Block_available w b # cs"
  shows "tinv (on_block_available now w b (s\<lparr>stack := cs\<rparr>))"
proof -
  let ?s0 = "s\<lparr>stack := cs\<rparr>"
  have inv0: "sinv (?s0\<lparr>stack := Block_available w b # stack ?s0\<rparr>)"
    unfolding pop_push[OF st] by (rule inv)
  have oc: "owner (Block_available w b) = Some w" by simp
  note a = sinv_active[OF inv0 oc]
  from a(6) obtain wk where wk: "walkers ?s0 w = Some wk" "large_value wk = None"
    by (auto split: option.splits)
  have nd: "Done_callback w \<notin> set cs" "Done_callback w \<notin> set (pending s)"
     "Delete_this w \<notin> set cs" "Delete_this w \<notin> set (pending s)"
    using a(1) by (auto simp: todo_def dest: owner_in_owners)
  have tws: "\<forall>w'. tw s w'" and bp: "back_pressure (trace s)" using t unfolding tinv_def by auto
  show ?thesis
  proof (cases "blocks s b")
    case (Internal_node ps)
    have nw: "Done_callback w' \<notin> set (map (\<lambda>p. Walk_branch (snd p)) ps)"
        "Delete_this w' \<notin> set (map (\<lambda>p. Walk_branch (snd p)) ps)" for w'
      by auto
    show ?thesis
      unfolding on_block_available_unfold[OF wk(1)]
      using Internal_node t st wk nd nw
      by (auto simp: tinv_def tw_def todo_def simp del: set_map split: option.splits)
  next
    case (Leaf_node ps)
    let ?wk = "wk\<lparr>buf := Some b, current_pair := - 1, large_value := None\<rparr>"
    let ?s1 = "?s0\<lparr>walkers := (walkers ?s0)(w \<mapsto> ?wk)\<rparr>"
    have e: "on_block_available now w b ?s0 = have_copied_value now w ?s1"
      unfolding on_block_available_unfold[OF wk(1)] using Leaf_node by simp
    show ?thesis unfolding e
    proof (rule tinv_have_copied_value[where wk="?wk" and b=b and ps=ps])
      show "back_pressure (trace ?s1)" using bp by simp
      show "\<forall>w'. w' \<noteq> w \<longrightarrow> tw ?s1 w'"
        using tws st nd unfolding tw_def by (auto simp: todo_def)
      show "held w (trace ?s1) = (if large_value ?wk = None then 0 else 1)"
        using tws[rule_format, of w] wk unfolding tw_def by simp
      show "unacked w (trace ?s1) = 0"
        using tws[rule_format, of w] st nd unfolding tw_def by (simp add: todo_def)
      show "w \<notin> set (owners (todo ?s1))"
        using a(1) by (simp add: todo_def)
    qed (use Leaf_node in auto)
  qed
qed

lemma tinv_exec:
  assumes "sinv s" "tinv s" "stack s = c # cs"
  shows "tinv (exec now c (s\<lparr>stack := cs\<rparr>))"
proof (cases c)
  case Start
  then show ?thesis using tinv_simple(3)[OF assms(2)] assms(3) by simp
next
  case Superblock_available
  then show ?thesis using tinv_simple(4)[OF assms(2)] assms(3) by simp
next
  case Release_superblock
  then show ?thesis using tinv_simple(5)[OF assms(2)] assms(3) by simp
next
  case (Walk_branch b)
  then show ?thesis using tinv_walk_branch[OF assms(1,2)] assms(3) by simp
next
  case (Block_available w b)
  then show ?thesis using tinv_on_block_available[OF assms(1,2)] assms(3) by simp
next
  case (Delete_this w)
  then show ?thesis using tinv_delete_this[OF assms(1,2)] assms(3) by simp
next
  case (Large_buf_available w)
  then show ?thesis using tinv_on_large_buf_available[OF assms(1,2)] assms(3) by simp
next
  case (Done_callback w)
  then show ?thesis using tinv_done_callback[OF assms(1,2)] assms(3) by simp
qed

lemma tinv_slice_step: "slice_step s s' \<Longrightarrow> sinv s \<Longrightarrow> tinv s \<Longrightarrow> tinv s'"
  by (induction rule: slice_step.induct) (auto intro: tinv_exec tinv_simple)

section \<open>Claims about single operations\<close>

lemma concat_split_segments: "length blob \<le> sum_list sizes \<Longrightarrow> concat (split_segments sizes blob) = blob"
  by (induction sizes arbitrary: blob) auto

lemma length_split_segments [simp]: "length (split_segments sizes blob) = length sizes"
  by (induction sizes arbitrary: blob) auto

lemma add_segments_from:
  "i \<le> length segs \<Longrightarrow> add_segments segs i bufs = bufs @ map clip (drop i segs)"
proof (induction segs i bufs rule: add_segments.induct)
  case (1 segs i bufs)
  show ?case
  proof (cases "i < length segs")
    case True
    have ab: "add_buffer (snd (get_segment segs i)) (fst (get_segment segs i)) bufs
        = bufs @ [clip (segs ! i)]"
      by (simp add: get_segment_def add_buffer_def clip_def)
    have "add_segments segs i bufs = add_segments segs (i + 1) (bufs @ [clip (segs ! i)])"
      using True by (subst add_segments.simps) (simp add: ab)
    also have "\<dots> = (bufs @ [clip (segs ! i)]) @ map clip (drop (i + 1) segs)"
      using "1.IH"[OF True] True unfolding ab by simp
    also have "\<dots> = bufs @ map clip (drop i segs)"
      using True by (simp add: Cons_nth_drop_Suc[symmetric])
    finally show ?thesis .
  next
    case False
    with "1.prems" show ?thesis by (simp add: add_segments.simps)
  qed
qed

lemma add_segments_all: "add_segments segs 0 [] = map clip segs"
  by (simp add: add_segments_from)

lemma clip_fits: "length seg < 65536 \<Longrightarrow> clip seg = seg"
  by (simp add: clip_def unat_of_nat)

lemma map_clip_fits: "\<forall>seg \<in> set segs. length seg < 65536 \<Longrightarrow> map clip segs = segs"
  by (induction segs) (simp_all add: clip_fits)

lemma set_split_segments:
  "seg \<in> set (split_segments sizes blob) \<Longrightarrow> \<exists>n \<in> set sizes. length seg \<le> n"
  by (induction sizes arbitrary: blob) auto

lemma erase_first_remove1:
  "erase_first this xs = (if this \<in> set xs then Some (remove1 this xs) else None)"
  by (induction xs) auto

text \<open>
  C5. When the large value of the current entry has been acquired and each of its segments
  is shorter than \<open>65536\<close> bytes (its size is passed in a \<^verbatim>\<open>uint16_t\<close>), the buffer group handed
  to the sink is the list of its segments, in segment order (buffer \<open>i\<close> is segment \<open>i\<close>, for
  \<open>i\<close> from \<open>0\<close> to \<open>k - 1\<close>); for a value \<open>blob\<close> split into segments of the sizes \<open>sizes\<close> the
  concatenation of the delivered buffers is \<open>blob\<close>. For a segment of \<open>65536\<close> bytes the size
  wraps to \<open>0\<close> and the buffer delivered for it is empty.
\<close>

theorem large_value_round_trip:
  assumes "walkers s w = Some wk" and "large_value wk = Some r"
    and "current_key wk = Some k" and "current_value wk = Some v"
    and "large_bufs s r = split_segments sizes blob" and "sum_list sizes = length blob"
    and "\<forall>n \<in> set sizes. n < 65536"
  shows "\<exists>bufs. trace (on_large_buf_available now w s) =
            E_value w k bufs (mcflags v) (exptime v) (if has_cas v then cas v else 0) # trace s
          \<and> length bufs = length sizes
          \<and> (\<forall>i < length sizes. bufs ! i = split_segments sizes blob ! i)
          \<and> concat bufs = blob"
proof -
  have "\<forall>seg \<in> set (split_segments sizes blob). length seg < 65536"
    using set_split_segments[of _ sizes blob] assms(7) by fastforce
  then have c: "map clip (split_segments sizes blob) = split_segments sizes blob"
    by (rule map_clip_fits)
  have "trace (on_large_buf_available now w s) =
      E_value w k (split_segments sizes blob) (mcflags v) (exptime v)
        (if has_cas v then cas v else 0) # trace s"
    unfolding on_large_buf_available_unfold[OF assms(1-4)] assms(5) add_segments_all c
    by (simp add: hand_over_def)
  moreover have "concat (split_segments sizes blob) = blob"
    using assms(6) by (simp add: concat_split_segments)
  ultimately show ?thesis by simp
qed

theorem large_value_round_trip_witness:
  "trace (on_large_buf_available True 0 shard_A_at_b) = [E_value 0 ''b'' [''xy'', ''z'', ''w''] 2 0 5]
   \<and> concat [''xy'', ''z'', ''w''] = ''xyzw''"
proof -
  have "\<exists>bufs. trace (on_large_buf_available True 0 shard_A_at_b) =
            E_value 0 ''b'' bufs (mcflags value_b) (exptime value_b)
              (if has_cas value_b then cas value_b else 0) # trace shard_A_at_b
          \<and> length bufs = length [2, 1, 1::nat]
          \<and> (\<forall>i < length [2, 1, 1::nat]. bufs ! i = split_segments [2, 1, 1] ''xyzw'' ! i)
          \<and> concat bufs = ''xyzw''"
    by (rule large_value_round_trip[where wk="the (walkers shard_A_at_b 0)" and r=7])
       (simp_all add: shard_A_at_b_def shard_A_def)
  then obtain bufs where b: "trace (on_large_buf_available True 0 shard_A_at_b) =
            E_value 0 ''b'' bufs (mcflags value_b) (exptime value_b)
              (if has_cas value_b then cas value_b else 0) # trace shard_A_at_b"
      "length bufs = 3" "\<forall>i < 3. bufs ! i = split_segments [2, 1, 1] ''xyzw'' ! i"
    by auto
  have "bufs = [''xy'', ''z'', ''w'']"
    using b(2,3) by (auto simp: list_eq_iff_nth_eq less_Suc_eq numeral_3_eq_3)
  then show ?thesis
    using b(1) by (simp add: shard_A_at_b_def shard_A_def value_b_def has_cas_def cas_def)
qed

theorem large_value_round_trip_wide_segment:
  "large_bufs shard_A_wide 7 = split_segments [65536] (replicate 65536 CHR ''x'')
   \<and> sum_list [65536] = length (replicate 65536 CHR ''x'')
   \<and> trace (on_large_buf_available True 0 shard_A_wide) = [E_value 0 ''b'' [[]] 2 0 5]
   \<and> concat (buffers (the (walkers (on_large_buf_available True 0 shard_A_wide) 0))) = []
   \<and> replicate 65536 CHR ''x'' \<noteq> []"
proof -
  have w: "walkers shard_A_wide 0 = Some (the (walkers shard_A_wide 0))"
    "large_value (the (walkers shard_A_wide 0)) = Some 7"
    "current_key (the (walkers shard_A_wide 0)) = Some ''b''"
    "current_value (the (walkers shard_A_wide 0)) = Some value_b"
    by (simp_all add: shard_A_wide_def shard_A_at_b_def shard_A_def)
  have l: "large_bufs shard_A_wide 7 = [replicate 65536 CHR ''x'']"
    by (simp add: shard_A_wide_def)
  have c: "clip (replicate 65536 CHR ''x'') = []"
    by (simp add: clip_def)
  have e: "on_large_buf_available True 0 shard_A_wide =
      hand_over True (Done_callback 0)
        (shard_A_wide\<lparr>walkers := (walkers shard_A_wide)(0 \<mapsto>
             (the (walkers shard_A_wide 0))\<lparr>buffers := [[]]\<rparr>),
           trace := E_value 0 ''b'' [[]] (mcflags value_b) (exptime value_b)
             (if has_cas value_b then cas value_b else 0) # trace shard_A_wide\<rparr>)"
    unfolding on_large_buf_available_unfold[OF w] l add_segments_all by (simp add: c)
  show ?thesis
    unfolding e using l
    by (simp add: hand_over_def value_b_def has_cas_def cas_def shard_A_wide_def
        shard_A_at_b_def shard_A_def)
qed

text \<open>
  C6. Uninstalling a replicant that is not in the slice's \<open>replicants\<close> is fatal: the slice's
  context fails (with \<^verbatim>\<open>fail("We were never installed on this slice.")\<close> when the asserted
  \<^verbatim>\<open>stopping\<close> flag holds, with the failed assertion otherwise), nothing is removed and
  nothing is scheduled. When the replicant is present (and \<^verbatim>\<open>stopping\<close> holds, as the
  function asserts), its first occurrence is erased and a \<^verbatim>\<open>have_uninstalled\<close> message to the
  replicant's home context is scheduled.
\<close>

theorem uninstall_absent_is_fatal:
  "(this \<notin> set (replicants sl) \<longrightarrow>
      failure (uninstall st this sl) =
        Some (if st then Fail ''We were never installed on this slice.'' else Assertion_failed)
      \<and> replicants (uninstall st this sl) = replicants sl
      \<and> outbox (uninstall st this sl) = outbox sl)
   \<and> (this \<in> set (replicants sl) \<and> st \<longrightarrow>
      uninstall st this sl =
        sl\<lparr>replicants := remove1 this (replicants sl),
           outbox := outbox sl @ [Have_uninstalled_msg]\<rparr>)"
  by (simp add: uninstall_def erase_first_remove1 crash_def)

theorem uninstall_absent_is_fatal_witness:
  "failure (uninstall True 3 shard_B) = Some (Fail ''We were never installed on this slice.'')
   \<and> replicants (uninstall True 3 shard_B) = [4]
   \<and> outbox (uninstall True 3 shard_B) = []
   \<and> replicants (uninstall True 4 shard_B) = []
   \<and> outbox (uninstall True 4 shard_B) = [Have_uninstalled_msg]
   \<and> failure (uninstall True 4 shard_B) = None"
  using uninstall_absent_is_fatal[of 3 shard_B True] uninstall_absent_is_fatal[of 4 shard_B True]
  by (simp add: shard_B_def shard_A_def)

text \<open>
  C9. \<^verbatim>\<open>install\<close> appends the replicant to \<open>replicants\<close> whatever the vector holds: after two
  installs the vector has two more entries of it, and one \<^verbatim>\<open>uninstall\<close> erases only the
  first occurrence, so the replicant is still registered.
\<close>

theorem install_appends_unconditionally:
  "replicants (install this sl) = replicants sl @ [this]
   \<and> replicants (install this (install this sl)) = replicants sl @ [this, this]
   \<and> replicants (uninstall True this (install this (install this sl)))
       = remove1 this (replicants sl @ [this, this])
   \<and> count_list (replicants (uninstall True this (install this (install this sl)))) this
       = count_list (replicants sl) this + 1
   \<and> failure (uninstall True this (install this (install this sl))) = failure sl"
proof -
  have c: "x \<in> set ys \<Longrightarrow> Suc (count_list (remove1 x ys) x) = count_list ys x" for x :: nat and ys
    by (induction ys) auto
  have "Suc (count_list (remove1 this (replicants sl @ [this, this])) this)
      = count_list (replicants sl @ [this, this]) this"
    by (rule c) simp
  then show ?thesis
    by (simp add: install_def uninstall_def erase_first_remove1)
qed

lemma subtree_ok_Suc: "subtree_ok h bl b \<Longrightarrow> subtree_ok (Suc h) bl b"
proof (induction h arbitrary: b)
  case 0
  then show ?case by (simp split: node_t.splits)
next
  case (Suc h)
  show ?case
  proof (cases "bl b")
    case (Internal_node ps)
    with Suc.prems have "\<forall>p \<in> set ps. subtree_ok h bl (snd p)"
      by (simp add: list_all_iff)
    then have "\<forall>p \<in> set ps. subtree_ok (Suc h) bl (snd p)"
      using Suc.IH by blast
    then show ?thesis
      using Internal_node by (subst subtree_ok.simps(2)) (simp add: list_all_iff del: subtree_ok.simps)
  next
    case (Leaf_node ps)
    then show ?thesis by simp
  qed
qed

lemma entries_Suc: "subtree_ok h bl b \<Longrightarrow> entries (Suc h) bl b = entries h bl b"
proof (induction h arbitrary: b)
  case 0
  then show ?case by (simp split: node_t.splits)
next
  case (Suc h)
  show ?case
  proof (cases "bl b")
    case (Internal_node ps)
    with Suc.prems have ok: "\<forall>p \<in> set ps. subtree_ok h bl (snd p)"
      by (simp add: list_all_iff)
    have m: "map (\<lambda>p. entries (Suc h) bl (snd p)) ps = map (\<lambda>p. entries h bl (snd p)) ps"
      using ok Suc.IH by (intro map_cong) auto
    have "entries (Suc (Suc h)) bl b = concat (map (\<lambda>p. entries (Suc h) bl (snd p)) ps)"
      using Internal_node by (subst entries.simps(2)) (simp del: entries.simps)
    also have "\<dots> = concat (map (\<lambda>p. entries h bl (snd p)) ps)"
      by (simp only: m)
    also have "\<dots> = entries (Suc h) bl b"
      using Internal_node by (subst entries.simps(2)) (simp del: entries.simps)
    finally show ?thesis .
  next
    case (Leaf_node ps)
    then show ?thesis by simp
  qed
qed

lemma entries_leaf: "bl b = Leaf_node ps \<Longrightarrow> entries h bl b = ps"
  by (cases h) auto

lemma subtree_leaf: "bl b = Leaf_node ps \<Longrightarrow> subtree_ok h bl b"
  by (cases h) auto

lemma subtree_internal:
  assumes "subtree_ok h bl b" "bl b = Internal_node ps"
  shows "\<forall>p \<in> set ps. subtree_ok h bl (snd p)"
    and "entries h bl b = concat (map (\<lambda>p. entries h bl (snd p)) ps)"
proof -
  from assms obtain h' where h: "h = Suc h'" by (cases h) auto
  have ok: "\<forall>p \<in> set ps. subtree_ok h' bl (snd p)"
    using assms unfolding h by (simp add: list_all_iff)
  then show "\<forall>p \<in> set ps. subtree_ok h bl (snd p)"
    unfolding h using subtree_ok_Suc by blast
  have m: "map (\<lambda>p. entries h' bl (snd p)) ps = map (\<lambda>p. entries (Suc h') bl (snd p)) ps"
    using ok entries_Suc by (intro map_cong) auto
  have "entries (Suc h') bl b = concat (map (\<lambda>p. entries h' bl (snd p)) ps)"
    using assms(2) by (subst entries.simps(2)) (simp del: entries.simps)
  also have "\<dots> = concat (map (\<lambda>p. entries (Suc h') bl (snd p)) ps)"
    by (simp only: m)
  finally show "entries h bl b = concat (map (\<lambda>p. entries h bl (snd p)) ps)"
    unfolding h .
qed

lemma leaf_of_other [simp]: "w' \<noteq> w \<Longrightarrow> leaf_of (ws(w := x)) bl w' = leaf_of ws bl w'"
  by (simp add: leaf_of_def)

lemma owed_other1: "owner c \<noteq> Some w \<Longrightarrow> owed h sl (ws(w := x)) c = owed h sl ws c"
  by (cases c) (simp_all add: owed_def leaf_rest_def leaf_of_def)

lemma owed_other_gen:
  "w \<notin> set (owners cs) \<Longrightarrow> ws' = ws(w := x) \<Longrightarrow> map (owed h sl ws') cs = map (owed h sl ws) cs"
proof (induction cs)
  case Nil
  then show ?case by simp
next
  case (Cons c cs)
  then have *: "owner c \<noteq> Some w" "w \<notin> set (owners cs)"
    by (auto split: option.splits)
  have "owed h sl ws' c = owed h sl ws c"
    unfolding Cons.prems(2) using *(1) by (rule owed_other1)
  moreover have "map (owed h sl ws') cs = map (owed h sl ws) cs"
    using *(2) Cons.prems(2) by (rule Cons.IH)
  ultimately show ?case by simp
qed

lemma owed_other:
  "w \<notin> set (owners cs) \<Longrightarrow> map (owed h sl (ws(w := x))) cs = map (owed h sl ws) cs"
  by (rule owed_other_gen) simp_all

lemma owed_walks:
  "sum_list (map (owed h sl ws) (map (\<lambda>p. Walk_branch (snd p)) ps))
     = mset (map (handed sl) (concat (map (\<lambda>p. entries h (blocks sl) (snd p)) ps)))"
  by (induction ps) (auto simp: owed_def)

lemma delivered_released [simp]: "delivered (released w wk @ tr) = delivered tr"
  by (simp add: released_def split: option.splits)

lemma cinv_begin_walk:
  assumes "sinv s" "cinv h sl s" "stack s = []" "inbox s = Start_msg # ms"
  shows "cinv h sl (s\<lparr>inbox := ms, stack := [Start]\<rparr>)"
proof -
  have "Start_msg \<notin> set ms"
    using assms(1,4) unfolding sinv_def prewalk_def walking_def
    by (auto simp: count_list_0_iff split: if_splits)
  then show ?thesis
    using assms(2-4) unfolding cinv_def debt_def todo_def by (simp add: owed_def)
qed

lemma cinv_resume:
  assumes "cinv h sl s" "stack s = []" "pending s = xs @ c # ys"
  shows "cinv h sl (s\<lparr>pending := xs @ ys, stack := [c]\<rparr>)"
  using assms unfolding cinv_def debt_def todo_def by (auto simp: ac_simps)

lemma cinv_start:
  assumes "cinv h sl s" "stack s = Start # cs"
  shows "cinv h sl (start now (s\<lparr>stack := cs\<rparr>))"
  using assms unfolding cinv_def debt_def todo_def start_def hand_over_def emit_def
  by (auto simp: owed_def ac_simps)

lemma cinv_superblock:
  assumes "cinv h sl s" "stack s = Superblock_available # cs"
  shows "cinv h sl (slice_on_block_available (s\<lparr>stack := cs\<rparr>))"
  using assms unfolding cinv_def debt_def todo_def slice_on_block_available_def slice_done_def
    emit_def crash_def
  by (auto simp: owed_def snapshot_def tree_ok_def split: option.splits)

lemma cinv_release_superblock:
  assumes "cinv h sl s" "stack s = Release_superblock # cs"
  shows "cinv h sl (emit E_release_super (s\<lparr>stack := cs\<rparr>))"
  using assms unfolding cinv_def debt_def todo_def emit_def
  by (auto simp: owed_def)

lemma cinv_walk_branch:
  assumes inv: "sinv s" and c: "cinv h sl s" and st: "stack s = Walk_branch b # cs"
  shows "cinv h sl (walk_branch now b (s\<lparr>stack := cs\<rparr>))"
proof -
  note f = fresh_walker[OF inv]
  have wn: "next_walker s \<notin> set (owners cs)" "next_walker s \<notin> set (owners (pending s))"
    using f(1) st by (auto simp: todo_def)
  have o: "map (owed h sl ((walkers s)(next_walker s \<mapsto> new_walker))) cs = map (owed h sl (walkers s)) cs"
     "map (owed h sl ((walkers s)(next_walker s \<mapsto> new_walker))) (pending s) = map (owed h sl (walkers s)) (pending s)"
    using wn by (simp_all add: owed_other)
  show ?thesis
    using c st unfolding walk_branch_unfold cinv_def debt_def todo_def hand_over_def
    by (auto simp: o owed_def ac_simps)
qed

lemma debt_update:
  assumes "todo s' = todo s" "inbox s' = inbox s" "walkers s' = (walkers s)(w := x)"
    "w \<notin> set (owners (todo s))"
  shows "debt h sl s' = debt h sl s"
proof -
  have "map (owed h sl ((walkers s)(w := x))) (todo s) = map (owed h sl (walkers s)) (todo s)"
    by (rule owed_other[OF assms(4)])
  then show ?thesis unfolding debt_def assms(1,2,3) by (simp only:)
qed

lemma debt_hand_over: "debt h sl (hand_over now c s) = owed h sl (walkers s) c + debt h sl s"
  unfolding debt_def hand_over_def todo_def by (simp add: ac_simps)

lemma todo_hand_over: "set (todo (hand_over now c s)) = insert c (set (todo s))"
  unfolding hand_over_def todo_def by auto

lemma hand_over_fields [simp]:
  "root_block (hand_over now c s) = root_block s"
  "blocks (hand_over now c s) = blocks s"
  "large_bufs (hand_over now c s) = large_bufs s"
  "trace (hand_over now c s) = trace s"
  "walkers (hand_over now c s) = walkers s"
  "inbox (hand_over now c s) = inbox s"
  "outbox (hand_over now c s) = outbox s"
  "txn (hand_over now c s) = txn s"
  "replicants (hand_over now c s) = replicants s"
  "failure (hand_over now c s) = failure s"
  unfolding hand_over_def by simp_all

lemma cinv_hand_over:
  assumes st: "root_block s = root_block sl" "blocks s = blocks sl" "large_bufs s = large_bufs sl"
    and ok: "tree_ok h sl" "\<forall>c \<in> set (todo s). cmd_ok h (blocks sl) c" "cmd_ok h (blocks sl) c'"
    and wn: "w \<notin> set (owners (todo s))"
    and acc: "mset (delivered tr') + (owed h sl ((walkers s)(w \<mapsto> wk')) c' + debt h sl s)
               = mset (map (handed sl) (snapshot h sl))"
  shows "cinv h sl (hand_over now c' (s\<lparr>walkers := (walkers s)(w \<mapsto> wk'), trace := tr'\<rparr>))"
proof -
  let ?s1 = "s\<lparr>walkers := (walkers s)(w \<mapsto> wk'), trace := tr'\<rparr>"
  have t1: "todo ?s1 = todo s" by (simp add: todo_def)
  have d1: "debt h sl ?s1 = debt h sl s"
    by (rule debt_update[OF t1 _ _ wn]) simp_all
  show ?thesis
    unfolding cinv_def debt_hand_over todo_hand_over d1 t1
    using st ok acc by simp
qed

lemma owed_leaf:
  assumes "ws w = Some wk" "buf wk = Some b" "blocks sl b = Leaf_node ps" "0 \<le> current_pair wk"
  shows "owed h sl ws (Large_buf_available w) = mset (map (handed sl) (drop (nat (current_pair wk)) ps))"
    and "owed h sl ws (Done_callback w) = mset (map (handed sl) (drop (Suc (nat (current_pair wk))) ps))"
  using assms by (simp_all add: owed_def leaf_rest_def leaf_of_def)

lemma cinv_slice_done: "cinv h sl s \<Longrightarrow> cinv h sl (slice_done s)"
  unfolding cinv_def debt_def todo_def slice_done_def emit_def crash_def by simp

lemma cinv_delete_this:
  assumes st: "root_block s = root_block sl" "blocks s = blocks sl" "large_bufs s = large_bufs sl"
    and ok: "tree_ok h sl" "\<forall>c \<in> set (todo s). cmd_ok h (blocks sl) c"
    and wn: "w \<notin> set (owners (todo s))"
    and wk: "walkers s w = Some wk" "buf wk = Some b"
    and acc: "mset (delivered (trace s)) + debt h sl s = mset (map (handed sl) (snapshot h sl))"
  shows "cinv h sl (delete_this w s)"
proof -
  define s1 where "s1 = s\<lparr>walkers := (walkers s)(w := None),
                 active_branch_walkers := active_branch_walkers s - 1,
                 trace := E_destroy w # E_release w b # trace s\<rparr>"
  have t1: "todo s1 = todo s" by (simp add: todo_def s1_def)
  have d1: "debt h sl s1 = debt h sl s"
    by (rule debt_update[OF t1 _ _ wn]) (simp_all add: s1_def)
  have c1: "cinv h sl s1"
    unfolding cinv_def d1 t1 using st ok acc by (simp add: s1_def)
  have e: "delete_this w s = (if active_branch_walkers s = 1 then slice_done s1 else s1)"
    unfolding delete_this_unfold[OF wk] s1_def Let_def ..
  show ?thesis
    unfolding e using c1 cinv_slice_done[OF c1] by simp
qed

lemma cinv_have_copied_value:
  assumes st: "root_block s = root_block sl" "blocks s = blocks sl" "large_bufs s = large_bufs sl"
    and ok: "tree_ok h sl" "\<forall>c \<in> set (todo s). cmd_ok h (blocks sl) c"
    and wn: "w \<notin> set (owners (todo s))"
    and wk: "walkers s w = Some wk" "buf wk = Some b" "blocks s b = Leaf_node ps"
    and cp: "- 1 \<le> current_pair wk" "current_pair wk < int (length ps)"
    and acc: "mset (delivered (trace s)) + debt h sl s
               + mset (map (handed sl) (drop (nat (current_pair wk + 1)) ps))
               = mset (map (handed sl) (snapshot h sl))"
  shows "cinv h sl (have_copied_value now w s)"
proof -
  let ?i = "nat (current_pair wk + 1)"
  have i: "?i \<le> length ps" "0 \<le> current_pair wk + 1" "nat (current_pair wk + 1) = ?i"
    using cp by auto
  have bl: "blocks sl b = Leaf_node ps" using wk(3) st(2) by simp
  show ?thesis
  proof (cases "?i = length ps")
    case True
    let ?s1 = "s\<lparr>walkers := (walkers s)(w \<mapsto> wk\<lparr>current_pair := current_pair wk + 1\<rparr>),
                  trace := released w wk @ trace s\<rparr>"
    have e: "have_copied_value now w s = delete_this w ?s1"
      unfolding have_copied_value_unfold[OF wk cp] using True by (simp add: Let_def)
    have t1: "todo ?s1 = todo s" by (simp add: todo_def)
    have d1: "debt h sl ?s1 = debt h sl s"
      by (rule debt_update[OF t1 _ _ wn]) simp_all
    show ?thesis unfolding e
      by (rule cinv_delete_this[where wk="wk\<lparr>current_pair := current_pair wk + 1\<rparr>" and b=b])
         (use st ok wn wk acc True in \<open>simp_all add: t1 d1\<close>)
  next
    case False
    then have lt: "?i < length ps" using i by simp
    have dr: "drop ?i ps = ps ! ?i # drop (Suc ?i) ps"
      using lt by (simp add: Cons_nth_drop_Suc)
    show ?thesis
    proof (cases "body (snd (ps ! ?i))")
      case (Large r)
      define wk2 where "wk2 = wk\<lparr>current_pair := current_pair wk + 1,
        current_key := Some (fst (ps ! ?i)), current_value := Some (snd (ps ! ?i)),
        large_value := Some r\<rparr>"
      have e: "have_copied_value now w s = hand_over now (Large_buf_available w)
          (s\<lparr>walkers := (walkers s)(w \<mapsto> wk2),
             trace := E_large_acquire w r # released w wk @ trace s\<rparr>)"
        unfolding have_copied_value_unfold[OF wk cp] Let_def wk2_def using False Large by simp
      have ow: "owed h sl ((walkers s)(w \<mapsto> wk2)) (Large_buf_available w)
          = mset (map (handed sl) (drop (nat (current_pair wk2)) ps))"
        by (rule owed_leaf(1)[where b=b]) (use wk bl i in \<open>simp_all add: wk2_def\<close>)
      have cp2: "nat (current_pair wk2) = ?i" by (simp add: wk2_def)
      show ?thesis unfolding e
        by (rule cinv_hand_over[OF st ok _ wn])
           (use acc in \<open>simp_all add: ow cp2 ac_simps\<close>)
    next
      case (Small bs)
      define wk2 where "wk2 = wk\<lparr>current_pair := current_pair wk + 1,
        current_key := Some (fst (ps ! ?i)), current_value := Some (snd (ps ! ?i)),
        large_value := None, buffers := [bs]\<rparr>"
      define ev where "ev = E_value w (fst (ps ! ?i)) [bs] (mcflags (snd (ps ! ?i)))
         (exptime (snd (ps ! ?i))) (if has_cas (snd (ps ! ?i)) then cas (snd (ps ! ?i)) else 0)"
      have sb: "handed sl (ps ! ?i) = (fst (ps ! ?i), bs)"
        using Small by (simp add: handed_def)
      have e: "have_copied_value now w s = hand_over now (Done_callback w)
          (s\<lparr>walkers := (walkers s)(w \<mapsto> wk2), trace := ev # released w wk @ trace s\<rparr>)"
        unfolding have_copied_value_unfold[OF wk cp] Let_def wk2_def ev_def using False Small
        by (simp split del: if_split)
      have ow: "owed h sl ((walkers s)(w \<mapsto> wk2)) (Done_callback w)
          = mset (map (handed sl) (drop (Suc (nat (current_pair wk2))) ps))"
        by (rule owed_leaf(2)[where b=b]) (use wk bl i in \<open>simp_all add: wk2_def\<close>)
      have dl: "delivered (ev # released w wk @ trace s) = (fst (ps ! ?i), bs) # delivered (trace s)"
        by (simp add: ev_def)
      have cp2: "nat (current_pair wk2) = ?i" by (simp add: wk2_def)
      show ?thesis unfolding e
        by (rule cinv_hand_over[OF st ok _ wn])
           (use acc dr sb in \<open>simp_all add: ow dl cp2 ac_simps\<close>)
    qed
  qed
qed

lemma cinvD:
  assumes "cinv h sl s"
  shows "root_block s = root_block sl" "blocks s = blocks sl" "large_bufs s = large_bufs sl"
    "tree_ok h sl" "\<forall>c \<in> set (todo s). cmd_ok h (blocks sl) c"
    "mset (delivered (trace s)) + debt h sl s = mset (map (handed sl) (snapshot h sl))"
  using assms unfolding cinv_def by simp_all

lemma debt_pop:
  assumes "stack s = c # cs"
  shows "debt h sl s = owed h sl (walkers s) c + debt h sl (s\<lparr>stack := cs\<rparr>)"
  using assms unfolding debt_def todo_def by (simp add: ac_simps)

lemma todo_pop: "stack s = c # cs \<Longrightarrow> todo s = c # todo (s\<lparr>stack := cs\<rparr>)"
  by (simp add: todo_def)

lemma cinv_stack_delete_this:
  assumes inv: "sinv s" and c: "cinv h sl s" and st: "stack s = Delete_this w # cs"
  shows "cinv h sl (delete_this w (s\<lparr>stack := cs\<rparr>))"
proof -
  let ?s0 = "s\<lparr>stack := cs\<rparr>"
  have inv0: "sinv (?s0\<lparr>stack := Delete_this w # stack ?s0\<rparr>)"
    unfolding pop_push[OF st] by (rule inv)
  have oc: "owner (Delete_this w) = Some w" by simp
  note a = sinv_active[OF inv0 oc]
  note d = cinvD[OF c]
  from a(6) obtain wk b where wk: "walkers ?s0 w = Some wk" "buf wk = Some b"
    by (auto split: option.splits)
  show ?thesis
    by (rule cinv_delete_this[OF _ _ _ d(4) _ a(1) wk])
       (use d debt_pop[OF st, of h sl] todo_pop[OF st] in \<open>simp_all add: owed_def\<close>)
qed

lemma cinv_done_callback:
  assumes inv: "sinv s" and c: "cinv h sl s" and st: "stack s = Done_callback w # cs"
  shows "cinv h sl (have_copied_value now w (emit (E_done w) (s\<lparr>stack := cs\<rparr>)))"
proof -
  let ?s0 = "s\<lparr>stack := cs\<rparr>"
  have inv0: "sinv (?s0\<lparr>stack := Done_callback w # stack ?s0\<rparr>)"
    unfolding pop_push[OF st] by (rule inv)
  have oc: "owner (Done_callback w) = Some w" by simp
  note a = sinv_active[OF inv0 oc]
  note d = cinvD[OF c]
  from a(6) obtain wk b ps where wk: "walkers s w = Some wk" "buf wk = Some b"
      "blocks s b = Leaf_node ps" "0 \<le> current_pair wk" "nat (current_pair wk) < length ps"
    by (auto simp: leaf_of_def split: option.splits node_t.splits)
  have ow: "owed h sl (walkers s) (Done_callback w)
      = mset (map (handed sl) (drop (Suc (nat (current_pair wk))) ps))"
    by (rule owed_leaf(2)[where b=b]) (use wk d(2) in simp_all)
  have n: "nat (current_pair wk + 1) = Suc (nat (current_pair wk))" using wk(4) by simp
  let ?s1 = "emit (E_done w) ?s0"
  have t: "todo ?s1 = todo ?s0" "debt h sl ?s1 = debt h sl ?s0"
    by (simp_all add: emit_def todo_def debt_def)
  have dl: "delivered (trace ?s1) = delivered (trace s)" by (simp add: emit_def)
  show ?thesis
  proof (rule cinv_have_copied_value[where wk=wk and b=b and ps=ps, OF _ _ _ d(4)])
    show "root_block ?s1 = root_block sl" "blocks ?s1 = blocks sl" "large_bufs ?s1 = large_bufs sl"
      using d(1-3) by (simp_all add: emit_def)
    show "\<forall>c \<in> set (todo ?s1). cmd_ok h (blocks sl) c"
      unfolding t using d(5) todo_pop[OF st] by simp
    show "w \<notin> set (owners (todo ?s1))" unfolding t using a(1) by simp
    show "walkers ?s1 w = Some wk" "buf wk = Some b" "blocks ?s1 b = Leaf_node ps"
      using wk by (simp_all add: emit_def)
    show "- 1 \<le> current_pair wk" "current_pair wk < int (length ps)" using wk by auto
    show "mset (delivered (trace ?s1)) + debt h sl ?s1
            + mset (map (handed sl) (drop (nat (current_pair wk + 1)) ps))
          = mset (map (handed sl) (snapshot h sl))"
      unfolding t dl n using d(6) unfolding debt_pop[OF st, of h sl] ow by (simp add: ac_simps)
  qed
qed

lemma cinv_on_large_buf_available:
  assumes inv: "sinv s" and c: "cinv h sl s" and st: "stack s = Large_buf_available w # cs"
  shows "cinv h sl (on_large_buf_available now w (s\<lparr>stack := cs\<rparr>))"
proof -
  let ?s0 = "s\<lparr>stack := cs\<rparr>"
  have inv0: "sinv (?s0\<lparr>stack := Large_buf_available w # stack ?s0\<rparr>)"
    unfolding pop_push[OF st] by (rule inv)
  have oc: "owner (Large_buf_available w) = Some w" by simp
  note a = sinv_active[OF inv0 oc]
  note d = cinvD[OF c]
  from a(6) obtain wk b ps r where wk: "walkers ?s0 w = Some wk" "buf wk = Some b"
      "blocks s b = Leaf_node ps" "0 \<le> current_pair wk" "nat (current_pair wk) < length ps"
      "current_key wk = Some (fst (ps ! nat (current_pair wk)))"
      "current_value wk = Some (snd (ps ! nat (current_pair wk)))"
      "large_value wk = Some r" "body (snd (ps ! nat (current_pair wk))) = Large r"
    by (auto simp: leaf_of_def split: option.splits node_t.splits)
  let ?i = "nat (current_pair wk)"
  define wk2 where "wk2 = wk\<lparr>buffers := add_segments (large_bufs ?s0 r) 0 []\<rparr>"
  define ev where "ev = E_value w (fst (ps ! ?i)) (add_segments (large_bufs ?s0 r) 0 [])
     (mcflags (snd (ps ! ?i))) (exptime (snd (ps ! ?i)))
     (if has_cas (snd (ps ! ?i)) then cas (snd (ps ! ?i)) else 0)"
  have e: "on_large_buf_available now w ?s0 = hand_over now (Done_callback w)
      (?s0\<lparr>walkers := (walkers ?s0)(w \<mapsto> wk2), trace := ev # trace ?s0\<rparr>)"
    unfolding on_large_buf_available_unfold[OF wk(1,8,6,7)] wk2_def ev_def ..
  have bl: "blocks sl b = Leaf_node ps" using wk(3) d(2) by simp
  have ow0: "owed h sl (walkers s) (Large_buf_available w) = mset (map (handed sl) (drop ?i ps))"
    by (rule owed_leaf(1)[where b=b]) (use wk bl in simp_all)
  have ow: "owed h sl ((walkers ?s0)(w \<mapsto> wk2)) (Done_callback w)
      = mset (map (handed sl) (drop (Suc ?i) ps))"
    using owed_leaf(2)[where b=b and ps=ps and wk=wk2 and w=w and ws="(walkers ?s0)(w \<mapsto> wk2)" and sl=sl and h=h]
      wk bl by (simp add: wk2_def)
  have dr: "drop ?i ps = ps ! ?i # drop (Suc ?i) ps"
    using wk(5) by (simp add: Cons_nth_drop_Suc)
  have sb: "handed sl (ps ! ?i) = (fst (ps ! ?i), concat (map clip (large_bufs sl r)))"
    using wk(9) by (simp add: handed_def)
  have dl: "delivered (ev # trace ?s0)
      = (fst (ps ! ?i), concat (map clip (large_bufs sl r))) # delivered (trace s)"
    using d(3) by (simp add: ev_def add_segments_all)
  show ?thesis unfolding e
  proof (rule cinv_hand_over[OF _ _ _ d(4) _ _ a(1)])
    show "root_block ?s0 = root_block sl" "blocks ?s0 = blocks sl" "large_bufs ?s0 = large_bufs sl"
      using d(1-3) by simp_all
    show "\<forall>c \<in> set (todo ?s0). cmd_ok h (blocks sl) c"
      using d(5) todo_pop[OF st] by simp
    show "cmd_ok h (blocks sl) (Done_callback w)" by simp
    show "mset (delivered (ev # trace ?s0))
            + (owed h sl ((walkers ?s0)(w \<mapsto> wk2)) (Done_callback w) + debt h sl ?s0)
          = mset (map (handed sl) (snapshot h sl))"
      unfolding dl ow using d(6) unfolding debt_pop[OF st, of h sl] ow0 dr
      by (simp add: sb ac_simps)
  qed
qed

lemma cinv_on_block_available:
  assumes inv: "sinv s" and c: "cinv h sl s" and st: "stack s = Block_available w b # cs"
  shows "cinv h sl (on_block_available now w b (s\<lparr>stack := cs\<rparr>))"
proof -
  let ?s0 = "s\<lparr>stack := cs\<rparr>"
  have inv0: "sinv (?s0\<lparr>stack := Block_available w b # stack ?s0\<rparr>)"
    unfolding pop_push[OF st] by (rule inv)
  have oc: "owner (Block_available w b) = Some w" by simp
  note a = sinv_active[OF inv0 oc]
  note d = cinvD[OF c]
  from a(5) obtain wk where wk: "walkers ?s0 w = Some wk" by auto
  have okb: "subtree_ok h (blocks sl) b" using d(5) todo_pop[OF st] by simp
  have ow0: "owed h sl (walkers s) (Block_available w b) = mset (map (handed sl) (entries h (blocks sl) b))"
    by (simp add: owed_def)
  note dp = debt_pop[OF st, of h sl, unfolded ow0]
  show ?thesis
  proof (cases "blocks s b")
    case (Internal_node ps)
    then have bl: "blocks sl b = Internal_node ps" using d(2) by simp
    note si = subtree_internal[OF okb bl]
    define s1 where "s1 = ?s0\<lparr>walkers := (walkers ?s0)(w \<mapsto> wk\<lparr>buf := Some b\<rparr>),
           stack := map (\<lambda>p. Walk_branch (snd p)) ps @ Delete_this w # stack ?s0\<rparr>"
    have e: "on_block_available now w b ?s0 = s1"
      unfolding on_block_available_unfold[OF wk] s1_def using Internal_node by simp
    have t1: "todo s1 = map (\<lambda>p. Walk_branch (snd p)) ps @ Delete_this w # todo ?s0"
      by (simp add: s1_def todo_def)
    have m: "map (owed h sl (walkers s1)) (todo ?s0) = map (owed h sl (walkers s)) (todo ?s0)"
      using owed_other[OF a(1), of h sl "walkers s" "Some (wk\<lparr>buf := Some b\<rparr>)"]
      by (simp add: s1_def)
    have "debt h sl s1 = mset (map (handed sl) (entries h (blocks sl) b)) + debt h sl ?s0"
      unfolding debt_def t1 map_append sum_list_append list.map sum_list.Cons m owed_walks si(2)
      by (simp add: owed_def s1_def)
    then have acc: "mset (delivered (trace s1)) + debt h sl s1 = mset (map (handed sl) (snapshot h sl))"
      using d(6) dp by (simp add: s1_def)
    have ok: "\<forall>c \<in> set (todo s1). cmd_ok h (blocks sl) c"
      unfolding t1 using d(5) si(1) todo_pop[OF st] by auto
    show ?thesis
      unfolding e cinv_def using d(1-4) acc ok by (simp add: s1_def)
  next
    case (Leaf_node ps)
    then have bl: "blocks sl b = Leaf_node ps" using d(2) by simp
    let ?wk = "wk\<lparr>buf := Some b, current_pair := - 1, large_value := None\<rparr>"
    let ?s1 = "?s0\<lparr>walkers := (walkers ?s0)(w \<mapsto> ?wk)\<rparr>"
    have e: "on_block_available now w b ?s0 = have_copied_value now w ?s1"
      unfolding on_block_available_unfold[OF wk] using Leaf_node by simp
    have t1: "todo ?s1 = todo ?s0" by (simp add: todo_def)
    have d1: "debt h sl ?s1 = debt h sl ?s0"
      by (rule debt_update[OF t1 _ _ a(1)]) simp_all
    have el: "entries h (blocks sl) b = ps" using bl by (rule entries_leaf)
    show ?thesis unfolding e
    proof (rule cinv_have_copied_value[where wk="?wk" and b=b and ps=ps, OF _ _ _ d(4)])
      show "root_block ?s1 = root_block sl" "blocks ?s1 = blocks sl" "large_bufs ?s1 = large_bufs sl"
        using d(1-3) by simp_all
      show "\<forall>c \<in> set (todo ?s1). cmd_ok h (blocks sl) c"
        unfolding t1 using d(5) todo_pop[OF st] by simp
      show "w \<notin> set (owners (todo ?s1))" unfolding t1 using a(1) by simp
      show "walkers ?s1 w = Some ?wk" "buf ?wk = Some b" "blocks ?s1 b = Leaf_node ps"
        using Leaf_node by simp_all
      show "- 1 \<le> current_pair ?wk" "current_pair ?wk < int (length ps)" by simp_all
      show "mset (delivered (trace ?s1)) + debt h sl ?s1
              + mset (map (handed sl) (drop (nat (current_pair ?wk + 1)) ps))
            = mset (map (handed sl) (snapshot h sl))"
        unfolding d1 using d(6) unfolding dp el by (simp add: ac_simps)
    qed
  qed
qed

lemma cinv_exec:
  assumes "sinv s" "cinv h sl s" "stack s = c # cs"
  shows "cinv h sl (exec now c (s\<lparr>stack := cs\<rparr>))"
proof (cases c)
  case Start
  then show ?thesis using cinv_start[OF assms(2)] assms(3) by simp
next
  case Superblock_available
  then show ?thesis using cinv_superblock[OF assms(2)] assms(3) by simp
next
  case Release_superblock
  then show ?thesis using cinv_release_superblock[OF assms(2)] assms(3) by simp
next
  case (Walk_branch b)
  then show ?thesis using cinv_walk_branch[OF assms(1,2)] assms(3) by simp
next
  case (Block_available w b)
  then show ?thesis using cinv_on_block_available[OF assms(1,2)] assms(3) by simp
next
  case (Delete_this w)
  then show ?thesis using cinv_stack_delete_this[OF assms(1,2)] assms(3) by simp
next
  case (Large_buf_available w)
  then show ?thesis using cinv_on_large_buf_available[OF assms(1,2)] assms(3) by simp
next
  case (Done_callback w)
  then show ?thesis using cinv_done_callback[OF assms(1,2)] assms(3) by simp
qed

lemma cinv_slice_step: "slice_step s s' \<Longrightarrow> sinv s \<Longrightarrow> cinv h sl s \<Longrightarrow> cinv h sl s'"
  by (induction rule: slice_step.induct) (auto intro: cinv_exec cinv_resume cinv_begin_walk)

lemma tree_cost_Suc: "subtree_ok h bl b \<Longrightarrow> tree_cost (Suc h) bl b = tree_cost h bl b"
proof (induction h arbitrary: b)
  case 0
  then show ?case by (simp split: node_t.splits)
next
  case (Suc h)
  show ?case
  proof (cases "bl b")
    case (Internal_node ps)
    with Suc.prems have ok: "\<forall>p \<in> set ps. subtree_ok h bl (snd p)"
      by (simp add: list_all_iff)
    have m: "map (\<lambda>p. 2 + tree_cost (Suc h) bl (snd p)) ps = map (\<lambda>p. 2 + tree_cost h bl (snd p)) ps"
      using ok Suc.IH by (intro map_cong) auto
    have "tree_cost (Suc (Suc h)) bl b = 2 + sum_list (map (\<lambda>p. 2 + tree_cost (Suc h) bl (snd p)) ps)"
      using Internal_node by (subst tree_cost.simps(2)) (simp del: tree_cost.simps)
    also have "\<dots> = 2 + sum_list (map (\<lambda>p. 2 + tree_cost h bl (snd p)) ps)"
      by (simp only: m)
    also have "\<dots> = tree_cost (Suc h) bl b"
      using Internal_node by (subst tree_cost.simps(2)) (simp del: tree_cost.simps)
    finally show ?thesis .
  next
    case (Leaf_node ps)
    then show ?thesis by simp
  qed
qed

lemma tree_cost_leaf: "bl b = Leaf_node ps \<Longrightarrow> tree_cost h bl b = 1 + 4 * length ps"
  by (cases h) auto

lemma tree_cost_internal:
  assumes "subtree_ok h bl b" "bl b = Internal_node ps"
  shows "tree_cost h bl b = 2 + sum_list (map (\<lambda>p. 2 + tree_cost h bl (snd p)) ps)"
proof -
  from assms obtain h' where h: "h = Suc h'" by (cases h) auto
  have ok: "\<forall>p \<in> set ps. subtree_ok h' bl (snd p)"
    using assms unfolding h by (simp add: list_all_iff)
  have m: "map (\<lambda>p. 2 + tree_cost h' bl (snd p)) ps = map (\<lambda>p. 2 + tree_cost (Suc h') bl (snd p)) ps"
    using ok tree_cost_Suc by (intro map_cong) auto
  have "tree_cost (Suc h') bl b = 2 + sum_list (map (\<lambda>p. 2 + tree_cost h' bl (snd p)) ps)"
    using assms(2) by (subst tree_cost.simps(2)) (simp del: tree_cost.simps)
  also have "\<dots> = 2 + sum_list (map (\<lambda>p. 2 + tree_cost (Suc h') bl (snd p)) ps)"
    by (simp only: m)
  finally show ?thesis unfolding h .
qed

lemma cost_other1: "owner c \<noteq> Some w \<Longrightarrow> cost h sl (ws(w := x)) c = cost h sl ws c"
  by (cases c) (simp_all add: leaf_rest_def leaf_of_def)

lemma cost_other_gen:
  "w \<notin> set (owners cs) \<Longrightarrow> ws' = ws(w := x) \<Longrightarrow> map (cost h sl ws') cs = map (cost h sl ws) cs"
proof (induction cs)
  case Nil
  then show ?case by simp
next
  case (Cons c cs)
  then have *: "owner c \<noteq> Some w" "w \<notin> set (owners cs)"
    by (auto split: option.splits)
  have "cost h sl ws' c = cost h sl ws c"
    unfolding Cons.prems(2) using *(1) by (rule cost_other1)
  moreover have "map (cost h sl ws') cs = map (cost h sl ws) cs"
    using *(2) Cons.prems(2) by (rule Cons.IH)
  ultimately show ?case by simp
qed

lemma sum_list_Suc_map: "sum_list (map (\<lambda>c. Suc (f c)) cs) = length cs + sum_list (map f cs)"
  by (induction cs) auto

lemma slice_measure_alt:
  "slice_measure h sl s =
     sum_list (map (cost h sl (walkers s)) (todo s)) + length (pending s)
     + sum_list (map (msg_cost h sl) (inbox s)) + length (outbox s)
     + (if txn s = Committed then 0 else 1)"
  unfolding slice_measure_def todo_def by (simp add: sum_list_Suc_map)

lemma measure_update:
  assumes "todo s' = todo s" "pending s' = pending s" "inbox s' = inbox s" "outbox s' = outbox s"
    "txn s' = txn s" "walkers s' = (walkers s)(w := x)" "w \<notin> set (owners (todo s))"
  shows "slice_measure h sl s' = slice_measure h sl s"
proof -
  have "map (cost h sl ((walkers s)(w := x))) (todo s) = map (cost h sl (walkers s)) (todo s)"
    by (rule cost_other_gen[OF assms(7)]) simp
  then show ?thesis unfolding slice_measure_alt assms(1-6) by (simp only:)
qed

lemma measure_hand_over:
  "slice_measure h sl (hand_over now c s) \<le> 1 + cost h sl (walkers s) c + slice_measure h sl s"
  unfolding slice_measure_def hand_over_def by simp

lemma measure_slice_done: "slice_measure h sl (slice_done s) \<le> slice_measure h sl s"
  unfolding slice_measure_def slice_done_def emit_def crash_def by simp

lemma measure_delete_this:
  assumes wn: "w \<notin> set (owners (todo s))" and wk: "walkers s w = Some wk" "buf wk = Some b"
  shows "slice_measure h sl (delete_this w s) \<le> slice_measure h sl s"
proof -
  define s1 where "s1 = s\<lparr>walkers := (walkers s)(w := None),
                 active_branch_walkers := active_branch_walkers s - 1,
                 trace := E_destroy w # E_release w b # trace s\<rparr>"
  have t1: "todo s1 = todo s" by (simp add: todo_def s1_def)
  have m1: "slice_measure h sl s1 = slice_measure h sl s"
    by (rule measure_update[OF t1 _ _ _ _ _ wn]) (simp_all add: s1_def)
  have e: "delete_this w s = (if active_branch_walkers s = 1 then slice_done s1 else s1)"
    unfolding delete_this_unfold[OF wk] s1_def Let_def ..
  show ?thesis
    unfolding e using m1 measure_slice_done[of h sl s1] by simp
qed

lemma cost_leaf:
  assumes "ws w = Some wk" "buf wk = Some b" "blocks sl b = Leaf_node ps" "0 \<le> current_pair wk"
  shows "cost h sl ws (Large_buf_available w) = 3 + 4 * (length ps - Suc (nat (current_pair wk)))"
    and "cost h sl ws (Done_callback w) = 1 + 4 * (length ps - Suc (nat (current_pair wk)))"
  using assms by (simp_all add: leaf_rest_def leaf_of_def)

lemma measure_have_copied_value:
  assumes bl: "blocks s = blocks sl"
    and wn: "w \<notin> set (owners (todo s))"
    and wk: "walkers s w = Some wk" "buf wk = Some b" "blocks s b = Leaf_node ps"
    and cp: "- 1 \<le> current_pair wk" "current_pair wk < int (length ps)"
  shows "slice_measure h sl (have_copied_value now w s)
           \<le> slice_measure h sl s + 4 * (length ps - nat (current_pair wk + 1))"
proof -
  let ?i = "nat (current_pair wk + 1)"
  have i: "?i \<le> length ps" "0 \<le> current_pair wk + 1"
    using cp by auto
  have bls: "blocks sl b = Leaf_node ps" using wk(3) bl by simp
  show ?thesis
  proof (cases "?i = length ps")
    case True
    let ?s1 = "s\<lparr>walkers := (walkers s)(w \<mapsto> wk\<lparr>current_pair := current_pair wk + 1\<rparr>),
                  trace := released w wk @ trace s\<rparr>"
    have e: "have_copied_value now w s = delete_this w ?s1"
      unfolding have_copied_value_unfold[OF wk cp] using True by (simp add: Let_def)
    have t1: "todo ?s1 = todo s" by (simp add: todo_def)
    have m1: "slice_measure h sl ?s1 = slice_measure h sl s"
      by (rule measure_update[OF t1 _ _ _ _ _ wn]) simp_all
    have "slice_measure h sl (delete_this w ?s1) \<le> slice_measure h sl ?s1"
      by (rule measure_delete_this[where wk="wk\<lparr>current_pair := current_pair wk + 1\<rparr>" and b=b])
         (use wn wk in \<open>simp_all add: t1\<close>)
    then show ?thesis unfolding e m1 by simp
  next
    case False
    then have lt: "?i < length ps" using i by simp
    show ?thesis
    proof (cases "body (snd (ps ! ?i))")
      case (Large r)
      define wk2 where "wk2 = wk\<lparr>current_pair := current_pair wk + 1,
        current_key := Some (fst (ps ! ?i)), current_value := Some (snd (ps ! ?i)),
        large_value := Some r\<rparr>"
      define s1 where "s1 = s\<lparr>walkers := (walkers s)(w \<mapsto> wk2),
             trace := E_large_acquire w r # released w wk @ trace s\<rparr>"
      have e: "have_copied_value now w s = hand_over now (Large_buf_available w) s1"
        unfolding have_copied_value_unfold[OF wk cp] Let_def wk2_def s1_def using False Large by simp
      have t1: "todo s1 = todo s" by (simp add: todo_def s1_def)
      have m1: "slice_measure h sl s1 = slice_measure h sl s"
        by (rule measure_update[OF t1 _ _ _ _ _ wn]) (simp_all add: s1_def)
      have c: "cost h sl (walkers s1) (Large_buf_available w) = 3 + 4 * (length ps - Suc ?i)"
        using cost_leaf(1)[where ws="walkers s1" and w=w and wk=wk2 and b=b and ps=ps and sl=sl and h=h]
          wk bls i by (simp add: s1_def wk2_def)
      show ?thesis
        unfolding e using measure_hand_over[of h sl now "Large_buf_available w" s1] lt
        unfolding m1 c by simp
    next
      case (Small bs)
      define wk2 where "wk2 = wk\<lparr>current_pair := current_pair wk + 1,
        current_key := Some (fst (ps ! ?i)), current_value := Some (snd (ps ! ?i)),
        large_value := None, buffers := [bs]\<rparr>"
      define ev where "ev = E_value w (fst (ps ! ?i)) [bs] (mcflags (snd (ps ! ?i)))
         (exptime (snd (ps ! ?i))) (if has_cas (snd (ps ! ?i)) then cas (snd (ps ! ?i)) else 0)"
      define s1 where "s1 = s\<lparr>walkers := (walkers s)(w \<mapsto> wk2), trace := ev # released w wk @ trace s\<rparr>"
      have e: "have_copied_value now w s = hand_over now (Done_callback w) s1"
        unfolding have_copied_value_unfold[OF wk cp] Let_def wk2_def ev_def s1_def using False Small
        by (simp split del: if_split)
      have t1: "todo s1 = todo s" by (simp add: todo_def s1_def)
      have m1: "slice_measure h sl s1 = slice_measure h sl s"
        by (rule measure_update[OF t1 _ _ _ _ _ wn]) (simp_all add: s1_def)
      have c: "cost h sl (walkers s1) (Done_callback w) = 1 + 4 * (length ps - Suc ?i)"
        using cost_leaf(2)[where ws="walkers s1" and w=w and wk=wk2 and b=b and ps=ps and sl=sl and h=h]
          wk bls i by (simp add: s1_def wk2_def)
      show ?thesis
        unfolding e using measure_hand_over[of h sl now "Done_callback w" s1] lt
        unfolding m1 c by simp
    qed
  qed
qed

lemma measure_pop:
  "stack s = c # cs \<Longrightarrow>
     slice_measure h sl s = cost h sl (walkers s) c + slice_measure h sl (s\<lparr>stack := cs\<rparr>)"
  unfolding slice_measure_def by simp

lemma cost_walks:
  "sum_list (map (cost h sl ws) (map (\<lambda>p. Walk_branch (snd p)) ps))
     = sum_list (map (\<lambda>p. 2 + tree_cost h (blocks sl) (snd p)) ps)"
  by (induction ps) auto

lemma measure_simple:
  assumes "sinv s"
  shows "stack s = [] \<Longrightarrow> inbox s = Start_msg # ms \<Longrightarrow>
           slice_measure h sl (s\<lparr>inbox := ms, stack := [Start]\<rparr>) < slice_measure h sl s"
    and "stack s = [] \<Longrightarrow> pending s = xs @ c # ys \<Longrightarrow>
           slice_measure h sl (s\<lparr>pending := xs @ ys, stack := [c]\<rparr>) < slice_measure h sl s"
    and "stack s = Release_superblock # cs \<Longrightarrow>
           slice_measure h sl (emit E_release_super (s\<lparr>stack := cs\<rparr>)) < slice_measure h sl s"
  unfolding slice_measure_def emit_def by simp_all

lemma measure_start:
  assumes "sinv s" "stack s = Start # cs"
  shows "slice_measure h sl (start now (s\<lparr>stack := cs\<rparr>)) < slice_measure h sl s"
proof -
  have "txn s = Not_begun"
    using assms unfolding sinv_def prewalk_def walking_def todo_def by auto
  then show ?thesis
    using assms(2) unfolding slice_measure_def start_def hand_over_def emit_def by simp
qed

lemma measure_superblock:
  assumes "cinv h sl s" "stack s = Superblock_available # cs"
  shows "slice_measure h sl (slice_on_block_available (s\<lparr>stack := cs\<rparr>)) < slice_measure h sl s"
proof (cases "root_block s")
  case None
  have "slice_measure h sl (emit E_release_super (slice_done (s\<lparr>stack := cs\<rparr>)))
      = slice_measure h sl (slice_done (s\<lparr>stack := cs\<rparr>))"
    unfolding slice_measure_def emit_def by simp
  also have "\<dots> \<le> slice_measure h sl (s\<lparr>stack := cs\<rparr>)" by (rule measure_slice_done)
  also have "\<dots> < slice_measure h sl s" unfolding measure_pop[OF assms(2)] by simp
  finally show ?thesis unfolding slice_on_block_available_def using None by simp
next
  case (Some r)
  then have "root_block sl = Some r" using cinvD(1)[OF assms(1)] by simp
  then show ?thesis
    using Some assms(2) unfolding slice_on_block_available_def slice_measure_def by simp
qed

lemma measure_walk_branch:
  assumes inv: "sinv s" and st: "stack s = Walk_branch b # cs"
  shows "slice_measure h sl (walk_branch now b (s\<lparr>stack := cs\<rparr>)) < slice_measure h sl s"
proof -
  let ?s0 = "s\<lparr>stack := cs\<rparr>"
  let ?w = "next_walker s"
  define s1 where "s1 = ?s0\<lparr>next_walker := Suc ?w, walkers := (walkers ?s0)(?w \<mapsto> new_walker),
          active_branch_walkers := active_branch_walkers ?s0 + 1,
          trace := E_acquire ?w b # E_construct ?w # trace ?s0\<rparr>"
  have e: "walk_branch now b ?s0 = hand_over now (Block_available ?w b) s1"
    unfolding walk_branch_unfold s1_def by simp
  have wn: "?w \<notin> set (owners (todo ?s0))"
    using fresh_walker(1)[OF inv] st by (simp add: todo_def)
  have t1: "todo s1 = todo ?s0" by (simp add: todo_def s1_def)
  have m1: "slice_measure h sl s1 = slice_measure h sl ?s0"
    by (rule measure_update[OF t1 _ _ _ _ _ wn]) (simp_all add: s1_def)
  show ?thesis
    unfolding e measure_pop[OF st]
    using measure_hand_over[of h sl now "Block_available ?w b" s1] unfolding m1 by simp
qed

lemma measure_stack_delete_this:
  assumes inv: "sinv s" and st: "stack s = Delete_this w # cs"
  shows "slice_measure h sl (delete_this w (s\<lparr>stack := cs\<rparr>)) < slice_measure h sl s"
proof -
  let ?s0 = "s\<lparr>stack := cs\<rparr>"
  have inv0: "sinv (?s0\<lparr>stack := Delete_this w # stack ?s0\<rparr>)"
    unfolding pop_push[OF st] by (rule inv)
  have oc: "owner (Delete_this w) = Some w" by simp
  note a = sinv_active[OF inv0 oc]
  from a(6) obtain wk b where wk: "walkers ?s0 w = Some wk" "buf wk = Some b"
    by (auto split: option.splits)
  show ?thesis
    unfolding measure_pop[OF st] using measure_delete_this[OF a(1) wk, of h sl] by simp
qed

lemma measure_on_large_buf_available:
  assumes inv: "sinv s" and c: "cinv h sl s" and st: "stack s = Large_buf_available w # cs"
  shows "slice_measure h sl (on_large_buf_available now w (s\<lparr>stack := cs\<rparr>)) < slice_measure h sl s"
proof -
  let ?s0 = "s\<lparr>stack := cs\<rparr>"
  have inv0: "sinv (?s0\<lparr>stack := Large_buf_available w # stack ?s0\<rparr>)"
    unfolding pop_push[OF st] by (rule inv)
  have oc: "owner (Large_buf_available w) = Some w" by simp
  note a = sinv_active[OF inv0 oc]
  note d = cinvD[OF c]
  from a(6) obtain wk b ps r where wk: "walkers s w = Some wk" "buf wk = Some b"
      "blocks s b = Leaf_node ps" "0 \<le> current_pair wk" "nat (current_pair wk) < length ps"
      "current_key wk = Some (fst (ps ! nat (current_pair wk)))"
      "current_value wk = Some (snd (ps ! nat (current_pair wk)))"
      "large_value wk = Some r"
    by (auto simp: leaf_of_def split: option.splits node_t.splits)
  let ?i = "nat (current_pair wk)"
  have wk0: "walkers ?s0 w = Some wk" using wk(1) by simp
  define wk2 where "wk2 = wk\<lparr>buffers := add_segments (large_bufs ?s0 r) 0 []\<rparr>"
  define ev where "ev = E_value w (fst (ps ! ?i)) (add_segments (large_bufs ?s0 r) 0 [])
     (mcflags (snd (ps ! ?i))) (exptime (snd (ps ! ?i)))
     (if has_cas (snd (ps ! ?i)) then cas (snd (ps ! ?i)) else 0)"
  define s1 where "s1 = ?s0\<lparr>walkers := (walkers ?s0)(w \<mapsto> wk2), trace := ev # trace ?s0\<rparr>"
  have e: "on_large_buf_available now w ?s0 = hand_over now (Done_callback w) s1"
    unfolding on_large_buf_available_unfold[OF wk0 wk(8,6,7)] wk2_def ev_def s1_def ..
  have bl: "blocks sl b = Leaf_node ps" using wk(3) d(2) by simp
  have t1: "todo s1 = todo ?s0" by (simp add: todo_def s1_def)
  have m1: "slice_measure h sl s1 = slice_measure h sl ?s0"
    by (rule measure_update[OF t1 _ _ _ _ _ a(1)]) (simp_all add: s1_def)
  have c0: "cost h sl (walkers s) (Large_buf_available w) = 3 + 4 * (length ps - Suc ?i)"
    by (rule cost_leaf(1)[where b=b]) (use wk bl in simp_all)
  have c1: "cost h sl (walkers s1) (Done_callback w) = 1 + 4 * (length ps - Suc ?i)"
    using cost_leaf(2)[where ws="walkers s1" and w=w and wk=wk2 and b=b and ps=ps and sl=sl and h=h]
      wk bl by (simp add: s1_def wk2_def)
  show ?thesis
    unfolding e measure_pop[OF st] c0
    using measure_hand_over[of h sl now "Done_callback w" s1] unfolding m1 c1 by simp
qed

lemma measure_done_callback:
  assumes inv: "sinv s" and c: "cinv h sl s" and st: "stack s = Done_callback w # cs"
  shows "slice_measure h sl (have_copied_value now w (emit (E_done w) (s\<lparr>stack := cs\<rparr>)))
           < slice_measure h sl s"
proof -
  let ?s0 = "s\<lparr>stack := cs\<rparr>"
  have inv0: "sinv (?s0\<lparr>stack := Done_callback w # stack ?s0\<rparr>)"
    unfolding pop_push[OF st] by (rule inv)
  have oc: "owner (Done_callback w) = Some w" by simp
  note a = sinv_active[OF inv0 oc]
  note d = cinvD[OF c]
  from a(6) obtain wk b ps where wk: "walkers s w = Some wk" "buf wk = Some b"
      "blocks s b = Leaf_node ps" "0 \<le> current_pair wk" "nat (current_pair wk) < length ps"
    by (auto simp: leaf_of_def split: option.splits node_t.splits)
  let ?s1 = "emit (E_done w) ?s0"
  have bl: "blocks sl b = Leaf_node ps" using wk(3) d(2) by simp
  have m1: "slice_measure h sl ?s1 = slice_measure h sl ?s0"
    unfolding slice_measure_def emit_def by simp
  have c0: "cost h sl (walkers s) (Done_callback w) = 1 + 4 * (length ps - Suc (nat (current_pair wk)))"
    by (rule cost_leaf(2)[where b=b]) (use wk bl in simp_all)
  have n: "nat (current_pair wk + 1) = Suc (nat (current_pair wk))" using wk(4) by simp
  have "slice_measure h sl (have_copied_value now w ?s1)
          \<le> slice_measure h sl ?s1 + 4 * (length ps - nat (current_pair wk + 1))"
    by (rule measure_have_copied_value[where b=b])
       (use wk d(2) a(1) in \<open>simp_all add: emit_def todo_def\<close>)
  then show ?thesis
    unfolding measure_pop[OF st] c0 m1 n by simp
qed

lemma measure_on_block_available:
  assumes inv: "sinv s" and c: "cinv h sl s" and st: "stack s = Block_available w b # cs"
  shows "slice_measure h sl (on_block_available now w b (s\<lparr>stack := cs\<rparr>)) < slice_measure h sl s"
proof -
  let ?s0 = "s\<lparr>stack := cs\<rparr>"
  have inv0: "sinv (?s0\<lparr>stack := Block_available w b # stack ?s0\<rparr>)"
    unfolding pop_push[OF st] by (rule inv)
  have oc: "owner (Block_available w b) = Some w" by simp
  note a = sinv_active[OF inv0 oc]
  note d = cinvD[OF c]
  from a(5) obtain wk where wk: "walkers ?s0 w = Some wk" by auto
  have okb: "subtree_ok h (blocks sl) b" using d(5) todo_pop[OF st] by simp
  have c0: "cost h sl (walkers s) (Block_available w b) = tree_cost h (blocks sl) b" by simp
  show ?thesis
  proof (cases "blocks s b")
    case (Internal_node ps)
    then have bl: "blocks sl b = Internal_node ps" using d(2) by simp
    define s1 where "s1 = ?s0\<lparr>walkers := (walkers ?s0)(w \<mapsto> wk\<lparr>buf := Some b\<rparr>)\<rparr>"
    define s2 where "s2 = s1\<lparr>stack := map (\<lambda>p. Walk_branch (snd p)) ps @ Delete_this w # stack s1\<rparr>"
    have e: "on_block_available now w b ?s0 = s2"
      unfolding on_block_available_unfold[OF wk] s1_def s2_def using Internal_node by simp
    have t1: "todo s1 = todo ?s0" by (simp add: todo_def s1_def)
    have m1: "slice_measure h sl s1 = slice_measure h sl ?s0"
      by (rule measure_update[OF t1 _ _ _ _ _ a(1)]) (simp_all add: s1_def)
    have m2: "slice_measure h sl s2
        = sum_list (map (\<lambda>p. 2 + tree_cost h (blocks sl) (snd p)) ps) + 1 + slice_measure h sl s1"
      unfolding slice_measure_def s2_def by (simp add: cost_walks del: map_map)
    show ?thesis
      unfolding e measure_pop[OF st] c0 m2 m1 tree_cost_internal[OF okb bl] by simp
  next
    case (Leaf_node ps)
    then have bl: "blocks sl b = Leaf_node ps" using d(2) by simp
    let ?wk = "wk\<lparr>buf := Some b, current_pair := - 1, large_value := None\<rparr>"
    let ?s1 = "?s0\<lparr>walkers := (walkers ?s0)(w \<mapsto> ?wk)\<rparr>"
    have e: "on_block_available now w b ?s0 = have_copied_value now w ?s1"
      unfolding on_block_available_unfold[OF wk] using Leaf_node by simp
    have t1: "todo ?s1 = todo ?s0" by (simp add: todo_def)
    have m1: "slice_measure h sl ?s1 = slice_measure h sl ?s0"
      by (rule measure_update[OF t1 _ _ _ _ _ a(1)]) simp_all
    have "slice_measure h sl (have_copied_value now w ?s1)
          \<le> slice_measure h sl ?s1 + 4 * (length ps - nat (current_pair ?wk + 1))"
      by (rule measure_have_copied_value[where b=b])
         (use d(2) a(1) Leaf_node in \<open>simp_all add: todo_def\<close>)
    moreover have "tree_cost h (blocks sl) b = 1 + 4 * length ps"
      using bl by (rule tree_cost_leaf)
    ultimately show ?thesis
      unfolding e measure_pop[OF st] c0 m1 by simp
  qed
qed

lemma measure_exec:
  assumes "sinv s" "cinv h sl s" "stack s = c # cs"
  shows "slice_measure h sl (exec now c (s\<lparr>stack := cs\<rparr>)) < slice_measure h sl s"
proof (cases c)
  case Start
  then show ?thesis using measure_start[OF assms(1)] assms(3) by simp
next
  case Superblock_available
  then show ?thesis using measure_superblock[OF assms(2)] assms(3) by simp
next
  case Release_superblock
  then show ?thesis using measure_simple(3)[OF assms(1)] assms(3) by simp
next
  case (Walk_branch b)
  then show ?thesis using measure_walk_branch[OF assms(1)] assms(3) by simp
next
  case (Block_available w b)
  then show ?thesis using measure_on_block_available[OF assms(1,2)] assms(3) by simp
next
  case (Delete_this w)
  then show ?thesis using measure_stack_delete_this[OF assms(1)] assms(3) by simp
next
  case (Large_buf_available w)
  then show ?thesis using measure_on_large_buf_available[OF assms(1,2)] assms(3) by simp
next
  case (Done_callback w)
  then show ?thesis using measure_done_callback[OF assms(1,2)] assms(3) by simp
qed

lemma measure_slice_step:
  "slice_step s s' \<Longrightarrow> sinv s \<Longrightarrow> cinv h sl s \<Longrightarrow> slice_measure h sl s' < slice_measure h sl s"
  by (induction rule: slice_step.induct) (auto intro: measure_exec measure_simple)

lemma frame_refl_like:
  "replicants s' = replicants s \<Longrightarrow> inbox s' = inbox s \<Longrightarrow> outbox s' = outbox s \<Longrightarrow> txn s' = txn s
     \<Longrightarrow> frame s s'"
  by (simp add: frame_def)

lemma frame_exec:
  assumes "sinv s" "stack s = c # cs"
  shows "frame s (exec now c (s\<lparr>stack := cs\<rparr>))"
proof (cases c)
  case Start
  have "txn s = Not_begun"
    using assms Start unfolding sinv_def prewalk_def walking_def todo_def by auto
  then show ?thesis using Start by (simp add: frame_def start_def emit_def)
next
  case Superblock_available
  then show ?thesis
    by (auto simp: frame_def slice_on_block_available_def slice_done_def emit_def crash_def
        split: option.splits)
next
  case Release_superblock
  then show ?thesis by (simp add: frame_def emit_def)
next
  case (Walk_branch b)
  then show ?thesis by (simp add: frame_def walk_branch_unfold)
next
  case (Block_available w b)
  then show ?thesis
    by (auto simp: frame_def on_block_available_def have_copied_value_def deliver_value_def
        delete_this_def slice_done_def emit_def crash_def Let_def
        split: option.splits node_t.splits value_body.splits)
next
  case (Delete_this w)
  then show ?thesis
    by (auto simp: frame_def delete_this_def slice_done_def emit_def crash_def Let_def
        split: option.splits)
next
  case (Large_buf_available w)
  then show ?thesis
    by (auto simp: frame_def on_large_buf_available_def deliver_value_def emit_def crash_def
        split: option.splits)
next
  case (Done_callback w)
  then show ?thesis
    by (auto simp: frame_def have_copied_value_def deliver_value_def
        delete_this_def slice_done_def emit_def crash_def Let_def
        split: option.splits node_t.splits value_body.splits)
qed

lemma frame_slice_step: "slice_step s s' \<Longrightarrow> sinv s \<Longrightarrow> frame s s'"
proof (induction rule: slice_step.induct)
  case (run s c cs now)
  then show ?case by (intro frame_exec)
next
  case (resume s xs c ys)
  then show ?case by (simp add: frame_def)
next
  case (begin_walk s ms)
  then show ?case by (simp add: frame_def)
qed

lemma msgs_invariants:
  assumes "sinv s" "tinv s" "cinv h sl0 s"
    and "count_list ib Start_msg = count_list (inbox s) Start_msg"
    and "count_list ob Report_msg \<le> count_list (outbox s) Report_msg"
  shows "sinv (s\<lparr>replicants := rs, inbox := ib, outbox := ob\<rparr>)" (is "sinv ?s'")
    and "tinv (s\<lparr>replicants := rs, inbox := ib, outbox := ob\<rparr>)"
    and "cinv h sl0 (s\<lparr>replicants := rs, inbox := ib, outbox := ob\<rparr>)"
proof -
  have r: "Report_msg \<in> set ob \<Longrightarrow> Report_msg \<in> set (outbox s)"
    using assms(5) by (metis count_list_0_iff le_zero_eq)
  have st: "Start_msg \<in> set ib \<longleftrightarrow> Start_msg \<in> set (inbox s)"
    using assms(4) by (metis count_list_0_iff)
  note d = sinvD[OF assms(1)]
  have t: "todo ?s' = todo s" by (simp add: todo_def)
  show "sinv ?s'"
  proof (rule sinvI)
    show "count_list (outbox ?s') Report_msg \<le> 1" using d(9) assms(5) by simp
    show "prewalk ?s' \<or> walking ?s'"
      using d(10) r st assms(4) unfolding prewalk_def walking_def t by auto
  qed (use d in \<open>simp_all add: t\<close>)
  show "tinv ?s'"
    using assms(2) unfolding tinv_def tw_def t by simp
  show "cinv h sl0 ?s'"
    using assms(3) st unfolding cinv_def debt_def t by simp
qed

lemma linkedD:
  assumes "linked h st this sl0 sl"
  shows "sinv sl" "tinv sl" "cinv h sl0 sl" "inbox_ok st (inbox sl)"
    "set (outbox sl) \<subseteq> {Report_msg, Have_uninstalled_msg}"
    "count_list (outbox sl) Have_uninstalled_msg \<le> 1"
    "Have_uninstalled_msg \<in> set (outbox sl) \<longrightarrow> st \<and> Uninstall_msg \<notin> set (inbox sl)"
    "Install_msg \<notin> set (inbox sl) \<and> (\<not> st \<or> Uninstall_msg \<in> set (inbox sl))
       \<longrightarrow> this \<in> set (replicants sl)"
  using assms unfolding linked_def by simp_all

lemma linked_slice_step:
  assumes l: "linked h st this sl0 sl" and st: "slice_step sl sl'"
  shows "linked h st this sl0 sl'"
    and "scan_outstanding sl' = scan_outstanding sl"
    and "uninstall_outstanding sl' = uninstall_outstanding sl"
    and "slice_measure h sl0 sl' < slice_measure h sl0 sl"
proof -
  note d = linkedD[OF l]
  note f = frame_slice_step[OF st d(1)]
  have i: "sinv sl'" "tinv sl'" "cinv h sl0 sl'"
    using sinv_slice_step[OF st d(1)] tinv_slice_step[OF st d(1,2)] cinv_slice_step[OF st d(1,3)]
    by simp_all
  have ib: "inbox_ok st (inbox sl')"
    using f d(4) unfolding frame_def inbox_ok_def by (auto split: if_splits)
  have mem: "Uninstall_msg \<in> set (inbox sl') \<longleftrightarrow> Uninstall_msg \<in> set (inbox sl)"
     "Install_msg \<in> set (inbox sl') \<longleftrightarrow> Install_msg \<in> set (inbox sl)"
    using f unfolding frame_def by auto
  have ob: "set (outbox sl') \<subseteq> {Report_msg, Have_uninstalled_msg}"
     "count_list (outbox sl') Have_uninstalled_msg = count_list (outbox sl) Have_uninstalled_msg"
     "Have_uninstalled_msg \<in> set (outbox sl') \<longleftrightarrow> Have_uninstalled_msg \<in> set (outbox sl)"
    using f d(5) unfolding frame_def by auto
  have rp: "replicants sl' = replicants sl" using f unfolding frame_def by simp
  show "linked h st this sl0 sl'"
    unfolding linked_def using i ib ob d(6,7,8) mem rp by simp
  show "uninstall_outstanding sl' = uninstall_outstanding sl"
    unfolding uninstall_outstanding_def mem ob by simp
  have "Report_msg \<in> set (outbox sl) \<longrightarrow> txn sl = Committed"
    using d(1) unfolding sinv_def prewalk_def walking_def by auto
  then show "scan_outstanding sl' = scan_outstanding sl"
    using f unfolding scan_outstanding_def frame_def by auto
  show "slice_measure h sl0 sl' < slice_measure h sl0 sl"
    by (rule measure_slice_step[OF st d(1,3)])
qed

lemma linked_install:
  assumes l: "linked h st this sl0 sl" and ib: "inbox sl = Install_msg # ms"
  defines "sl' \<equiv> install this (sl\<lparr>inbox := ms\<rparr>)"
  shows "linked h st this sl0 sl'"
    and "scan_outstanding sl' = scan_outstanding sl"
    and "uninstall_outstanding sl' = uninstall_outstanding sl"
    and "slice_measure h sl0 sl' < slice_measure h sl0 sl"
    and "failure sl' = None"
proof -
  note d = linkedD[OF l]
  have e: "sl' = sl\<lparr>replicants := replicants sl @ [this], inbox := ms, outbox := outbox sl\<rparr>"
    unfolding sl'_def install_def by simp
  have ms: "ms = [] \<or> ms = [Uninstall_msg]" "st \<or> ms = []"
    using d(4) ib unfolding inbox_ok_def by (auto split: if_splits)
  have cnt: "count_list ms Start_msg = count_list (inbox sl) Start_msg"
    "count_list (outbox sl) Report_msg \<le> count_list (outbox sl) Report_msg"
    using ib by simp_all
  have i: "sinv sl'" "tinv sl'" "cinv h sl0 sl'"
    unfolding e by (rule msgs_invariants[OF d(1,2,3) cnt])+
  show "linked h st this sl0 sl'"
    unfolding linked_def using i d(5,6,7) ms ib
    by (auto simp: e inbox_ok_def)
  show "scan_outstanding sl' = scan_outstanding sl"
    unfolding scan_outstanding_def e by simp
  show "uninstall_outstanding sl' = uninstall_outstanding sl"
    unfolding uninstall_outstanding_def e using ib by simp
  show "slice_measure h sl0 sl' < slice_measure h sl0 sl"
    unfolding slice_measure_def e using ib by simp
  show "failure sl' = None" using i(1) unfolding sinv_def by simp
qed

lemma linked_uninstall:
  assumes l: "linked h st this sl0 sl" and ib: "inbox sl = Uninstall_msg # ms"
  defines "sl' \<equiv> uninstall st this (sl\<lparr>inbox := ms\<rparr>)"
  shows "linked h st this sl0 sl'"
    and "scan_outstanding sl' = scan_outstanding sl"
    and "uninstall_outstanding sl' = uninstall_outstanding sl"
    and "slice_measure h sl0 sl' < slice_measure h sl0 sl"
    and "failure sl' = None"
proof -
  note d = linkedD[OF l]
  have ms: "ms = []" "st"
    using d(4) ib unfolding inbox_ok_def by (auto split: if_splits)
  have inst: "this \<in> set (replicants sl)" using d(8) ib ms by simp
  have nh: "Have_uninstalled_msg \<notin> set (outbox sl)" using d(7) ib by auto
  have e: "sl' = sl\<lparr>replicants := remove1 this (replicants sl), inbox := [],
       outbox := outbox sl @ [Have_uninstalled_msg]\<rparr>"
    unfolding sl'_def uninstall_def using ms inst by (simp add: erase_first_remove1)
  have cnt: "count_list [] Start_msg = count_list (inbox sl) Start_msg"
    "count_list (outbox sl @ [Have_uninstalled_msg]) Report_msg \<le> count_list (outbox sl) Report_msg"
    using ib ms by simp_all
  have i: "sinv sl'" "tinv sl'" "cinv h sl0 sl'"
    unfolding e by (rule msgs_invariants[OF d(1,2,3) cnt])+
  show "linked h st this sl0 sl'"
    unfolding linked_def using i d(5) nh ms
    by (auto simp: e inbox_ok_def count_list_0_iff)
  show "scan_outstanding sl' = scan_outstanding sl"
    unfolding scan_outstanding_def e by simp
  show "uninstall_outstanding sl' = uninstall_outstanding sl"
    unfolding uninstall_outstanding_def e using ib by simp
  show "slice_measure h sl0 sl' < slice_measure h sl0 sl"
    unfolding slice_measure_def e using ib by simp
  show "failure sl' = None" using i(1) unfolding sinv_def by simp
qed

lemma linked_report:
  assumes l: "linked h st this sl0 sl" and ob: "outbox sl = xs @ Report_msg # ys"
  defines "sl' \<equiv> sl\<lparr>outbox := xs @ ys\<rparr>"
  shows "linked h st this sl0 sl'"
    and "scan_outstanding sl = 1" "scan_outstanding sl' = 0"
    and "uninstall_outstanding sl' = uninstall_outstanding sl"
    and "slice_measure h sl0 sl' < slice_measure h sl0 sl"
proof -
  note d = linkedD[OF l]
  have c: "count_list (outbox sl) Report_msg \<le> 1" "Report_msg \<in> set (outbox sl) \<longrightarrow> txn sl = Committed"
     "Report_msg \<in> set (outbox sl) \<longrightarrow> Start_msg \<notin> set (inbox sl)"
    using d(1) unfolding sinv_def prewalk_def walking_def by auto
  have nr: "Report_msg \<notin> set xs" "Report_msg \<notin> set ys"
    using c(1) ob by (auto simp: count_list_0_iff)
  have tx: "txn sl = Committed" "Start_msg \<notin> set (inbox sl)" using c(2,3) ob by auto
  have e: "sl' = sl\<lparr>replicants := replicants sl, inbox := inbox sl, outbox := xs @ ys\<rparr>"
    unfolding sl'_def by simp
  have cnt: "count_list (inbox sl) Start_msg = count_list (inbox sl) Start_msg"
    "count_list (xs @ ys) Report_msg \<le> count_list (outbox sl) Report_msg"
    using ob by simp_all
  have i: "sinv sl'" "tinv sl'" "cinv h sl0 sl'"
    unfolding e by (rule msgs_invariants[OF d(1,2,3) cnt])+
  show "linked h st this sl0 sl'"
    unfolding linked_def using i d(4,5,6,7,8) ob
    by (auto simp: sl'_def)
  show "scan_outstanding sl = 1" unfolding scan_outstanding_def using ob by simp
  show "scan_outstanding sl' = 0" unfolding scan_outstanding_def sl'_def using nr tx by simp
  show "uninstall_outstanding sl' = uninstall_outstanding sl"
    unfolding uninstall_outstanding_def sl'_def using ob by simp
  show "slice_measure h sl0 sl' < slice_measure h sl0 sl"
    unfolding slice_measure_def sl'_def using ob by simp
qed

lemma linked_have_uninstalled:
  assumes l: "linked h st this sl0 sl" and ob: "outbox sl = xs @ Have_uninstalled_msg # ys"
  defines "sl' \<equiv> sl\<lparr>outbox := xs @ ys\<rparr>"
  shows "linked h st this sl0 sl'"
    and "uninstall_outstanding sl = 1" "uninstall_outstanding sl' = 0"
    and "scan_outstanding sl' = scan_outstanding sl"
    and "slice_measure h sl0 sl' < slice_measure h sl0 sl"
    and "st"
proof -
  note d = linkedD[OF l]
  have nh: "Have_uninstalled_msg \<notin> set xs" "Have_uninstalled_msg \<notin> set ys"
    using d(6) ob by (auto simp: count_list_0_iff)
  have u: "st" "Uninstall_msg \<notin> set (inbox sl)" using d(7) ob by auto
  have st0: "Start_msg \<notin> set (inbox sl)"
    using d(4) u unfolding inbox_ok_def by auto
  have e: "sl' = sl\<lparr>replicants := replicants sl, inbox := inbox sl, outbox := xs @ ys\<rparr>"
    unfolding sl'_def by simp
  have cnt: "count_list (inbox sl) Start_msg = count_list (inbox sl) Start_msg"
    "count_list (xs @ ys) Report_msg \<le> count_list (outbox sl) Report_msg"
    using ob by simp_all
  have i: "sinv sl'" "tinv sl'" "cinv h sl0 sl'"
    unfolding e by (rule msgs_invariants[OF d(1,2,3) cnt])+
  show "linked h st this sl0 sl'"
    unfolding linked_def using i d(4,5,6,7,8) ob nh u
    by (auto simp: sl'_def)
  show "uninstall_outstanding sl = 1" unfolding uninstall_outstanding_def using ob by simp
  show "uninstall_outstanding sl' = 0" unfolding uninstall_outstanding_def sl'_def using nh u by simp
  show "scan_outstanding sl' = scan_outstanding sl"
    unfolding scan_outstanding_def sl'_def using ob by simp
  show "slice_measure h sl0 sl' < slice_measure h sl0 sl"
    unfolding slice_measure_def sl'_def using ob by simp
  show "st" by (rule u(1))
qed

lemma linked_stop:
  assumes l: "linked h False this sl0 sl"
  defines "sl' \<equiv> sl\<lparr>inbox := inbox sl @ [Uninstall_msg]\<rparr>"
  shows "linked h True this sl0 sl'"
    and "uninstall_outstanding sl' = 1"
    and "scan_outstanding sl' = scan_outstanding sl"
    and "slice_measure h sl0 sl' = slice_measure h sl0 sl + 2"
proof -
  note d = linkedD[OF l]
  have e: "sl' = sl\<lparr>replicants := replicants sl, inbox := inbox sl @ [Uninstall_msg],
      outbox := outbox sl\<rparr>"
    unfolding sl'_def by simp
  have cnt: "count_list (inbox sl @ [Uninstall_msg]) Start_msg = count_list (inbox sl) Start_msg"
    "count_list (outbox sl) Report_msg \<le> count_list (outbox sl) Report_msg"
    by simp_all
  have i: "sinv sl'" "tinv sl'" "cinv h sl0 sl'"
    unfolding e by (rule msgs_invariants[OF d(1,2,3) cnt])+
  show "linked h True this sl0 sl'"
    unfolding linked_def using i d(4,5,6,7,8)
    by (auto simp: sl'_def inbox_ok_def)
  show "uninstall_outstanding sl' = 1" unfolding uninstall_outstanding_def sl'_def by simp
  show "scan_outstanding sl' = scan_outstanding sl" unfolding scan_outstanding_def sl'_def by simp
  show "slice_measure h sl0 sl' = slice_measure h sl0 sl + 2"
    unfolding slice_measure_def sl'_def by simp
qed

lemma sum_nth_update:
  fixes f :: "'a \<Rightarrow> int"
  assumes "i < n" "n \<le> length xs"
  shows "(\<Sum>j<n. f (xs[i := y] ! j)) = (\<Sum>j<n. f (xs ! j)) - f (xs ! i) + f y"
proof -
  have a: "(\<Sum>j<n. f (xs[i := y] ! j)) = f (xs[i := y] ! i) + (\<Sum>j\<in>{..<n} - {i}. f (xs[i := y] ! j))"
    using assms by (intro sum.remove) auto
  have b: "(\<Sum>j<n. f (xs ! j)) = f (xs ! i) + (\<Sum>j\<in>{..<n} - {i}. f (xs ! j))"
    using assms by (intro sum.remove) auto
  have c: "(\<Sum>j\<in>{..<n} - {i}. f (xs[i := y] ! j)) = (\<Sum>j\<in>{..<n} - {i}. f (xs ! j))"
    by (intro sum.cong) auto
  show ?thesis unfolding a b c using assms by simp
qed

lemma sum_nth_update_less:
  fixes g :: "nat \<Rightarrow> 'a \<Rightarrow> nat"
  assumes "i < n" "n \<le> length xs" "g i y < g i (xs ! i)"
  shows "(\<Sum>j<n. g j (xs[i := y] ! j)) < (\<Sum>j<n. g j (xs ! j))"
proof (rule sum_strict_mono_ex1)
  show "finite {..<n}" by simp
  show "\<forall>j\<in>{..<n}. g j (xs[i := y] ! j) \<le> g j (xs ! j)"
    using assms by (auto simp: nth_list_update)
  show "\<exists>j\<in>{..<n}. g j (xs[i := y] ! j) < g j (xs ! j)"
    using assms by (intro bexI[of _ i]) auto
qed

lemma list_all2_update2:
  assumes "list_all2 P xs ys" "i < length ys" "P (xs ! i) y"
  shows "list_all2 P xs (ys[i := y])"
  using assms unfolding list_all2_conv_all_nth by (auto simp: nth_list_update)

lemma winvD:
  assumes "winv h this sls s"
  shows "rfailure s = None" "self s = this"
    "list_all2 (linked h (stopping s) this) sls (slices s)"
    "counters_ok (stopping s) (active_slice_walkers s) (active_uninstallations s)
        (stopped_calls s) (deleted s)
        (\<Sum>i<length sls. scan_outstanding (slices s ! i))
        (\<Sum>i<length sls. uninstall_outstanding (slices s ! i)) (sls \<noteq> [])"
    "length (slices s) = length sls"
proof -
  show "list_all2 (linked h (stopping s) this) sls (slices s)"
    using assms unfolding winv_def by simp
  then show "length (slices s) = length sls" by (simp add: list_all2_lengthD)
qed (use assms in \<open>simp_all add: winv_def\<close>)

lemma winv_linked:
  assumes "winv h this sls s" "i < length sls"
  shows "linked h (stopping s) this (sls ! i) (slices s ! i)"
  using winvD(3)[OF assms(1)] assms(2) by (simp add: list_all2_nthD)

lemma winv_not_crashed:
  assumes "winv h this sls s"
  shows "\<not> crashed s"
proof -
  note d = winvD[OF assms]
  have "failure sl = None" if "sl \<in> set (slices s)" for sl
  proof -
    from that obtain i where i: "i < length (slices s)" "sl = slices s ! i"
      by (auto simp: in_set_conv_nth)
    then have "linked h (stopping s) this (sls ! i) sl"
      using d(3) by (simp add: list_all2_nthD2)
    then show ?thesis unfolding linked_def sinv_def by simp
  qed
  then show ?thesis unfolding crashed_def list_ex_iff using d(1) by auto
qed

lemma scan_outstanding_range: "0 \<le> scan_outstanding sl" "scan_outstanding sl \<le> 1"
  and uninstall_outstanding_range: "0 \<le> uninstall_outstanding sl" "uninstall_outstanding sl \<le> 1"
  by (simp_all add: scan_outstanding_def uninstall_outstanding_def)

lemma winv_update_slice:
  assumes w: "winv h this sls s" and i: "i < length sls"
    and l: "linked h (stopping s) this (sls ! i) sl'"
    and r: "scan_outstanding sl' = scan_outstanding (slices s ! i)"
    and u: "uninstall_outstanding sl' = uninstall_outstanding (slices s ! i)"
    and m: "slice_measure h (sls ! i) sl' < slice_measure h (sls ! i) (slices s ! i)"
  shows "winv h this sls (s\<lparr>slices := (slices s)[i := sl']\<rparr>)"
    and "world_measure h sls (s\<lparr>slices := (slices s)[i := sl']\<rparr>) < world_measure h sls s"
proof -
  note d = winvD[OF w]
  have n: "length sls \<le> length (slices s)" "i < length (slices s)" using d(5) i by simp_all
  have sr: "(\<Sum>j<length sls. scan_outstanding ((slices s)[i := sl'] ! j))
      = (\<Sum>j<length sls. scan_outstanding (slices s ! j))"
    unfolding sum_nth_update[OF i n(1)] r by simp
  have su: "(\<Sum>j<length sls. uninstall_outstanding ((slices s)[i := sl'] ! j))
      = (\<Sum>j<length sls. uninstall_outstanding (slices s ! j))"
    unfolding sum_nth_update[OF i n(1)] u by simp
  have la: "list_all2 (linked h (stopping s) this) sls ((slices s)[i := sl'])"
    by (rule list_all2_update2[OF d(3) n(2) l])
  show "winv h this sls (s\<lparr>slices := (slices s)[i := sl']\<rparr>)"
    unfolding winv_def using d(1,2,4) la by (simp add: sr su)
  show "world_measure h sls (s\<lparr>slices := (slices s)[i := sl']\<rparr>) < world_measure h sls s"
    unfolding world_measure_def
    using sum_nth_update_less[where g="\<lambda>j. slice_measure h (sls ! j)", OF i n(1) m] by simp
qed

lemma coordinator_fields [simp]:
  "slices (slice_walker_done s) = slices s" "stopping (slice_walker_done s) = stopping s"
  "self (slice_walker_done s) = self s"
  "slices (have_uninstalled s) = slices s" "stopping (have_uninstalled s) = stopping s"
  "self (have_uninstalled s) = self s"
  by (auto simp: slice_walker_done_def have_uninstalled_def replicant_done_def rcrash_def Let_def
      split: option.splits)

lemma counters_report:
  assumes c: "counters_ok (stopping s) (active_slice_walkers s) (active_uninstallations s)
        (stopped_calls s) (deleted s) r u ne"
    and r: "1 \<le> r" and f: "rfailure s = None" and ne: "ne"
  shows "counters_ok (stopping (slice_walker_done s)) (active_slice_walkers (slice_walker_done s))
        (active_uninstallations (slice_walker_done s)) (stopped_calls (slice_walker_done s))
        (deleted (slice_walker_done s)) (r - 1) u ne \<and> rfailure (slice_walker_done s) = None"
  using assms unfolding counters_ok_def slice_walker_done_def replicant_done_def rcrash_def Let_def
  by (auto split: if_splits)

lemma counters_have_uninstalled:
  assumes c: "counters_ok (stopping s) (active_slice_walkers s) (active_uninstallations s)
        (stopped_calls s) (deleted s) r u ne"
    and u: "1 \<le> u" and st: "stopping s" and f: "rfailure s = None" and ne: "ne"
  shows "counters_ok (stopping (have_uninstalled s)) (active_slice_walkers (have_uninstalled s))
        (active_uninstallations (have_uninstalled s)) (stopped_calls (have_uninstalled s))
        (deleted (have_uninstalled s)) r (u - 1) ne \<and> rfailure (have_uninstalled s) = None"
  using assms unfolding counters_ok_def have_uninstalled_def replicant_done_def rcrash_def Let_def
  by (auto split: if_splits)

lemma sum_ge_nth:
  fixes f :: "nat \<Rightarrow> int"
  assumes "i < n" "\<forall>j<n. 0 \<le> f j"
  shows "f i \<le> (\<Sum>j<n. f j)"
proof -
  have "(\<Sum>j<n. f j) = f i + (\<Sum>j\<in>{..<n} - {i}. f j)"
    using assms(1) by (intro sum.remove) auto
  moreover have "0 \<le> (\<Sum>j\<in>{..<n} - {i}. f j)"
    using assms(2) by (intro sum_nonneg) auto
  ultimately show ?thesis by simp
qed

lemma winv_report:
  assumes w: "winv h this sls s" and i: "i < length sls"
    and ob: "outbox (slices s ! i) = xs @ Report_msg # ys"
  defines "s1 \<equiv> s\<lparr>slices := (slices s)[i := (slices s ! i)\<lparr>outbox := xs @ ys\<rparr>]\<rparr>"
  shows "winv h this sls (slice_walker_done s1)"
    and "world_measure h sls (slice_walker_done s1) < world_measure h sls s"
proof -
  note d = winvD[OF w]
  note l = linked_report[OF winv_linked[OF w i] ob]
  have n: "length sls \<le> length (slices s)" "i < length (slices s)" using d(5) i by simp_all
  let ?r = "\<Sum>j<length sls. scan_outstanding (slices s ! j)"
  let ?u = "\<Sum>j<length sls. uninstall_outstanding (slices s ! j)"
  have sr: "(\<Sum>j<length sls. scan_outstanding (slices s1 ! j)) = ?r - 1"
    unfolding s1_def using sum_nth_update[OF i n(1), of scan_outstanding] l(2,3) by simp
  have su: "(\<Sum>j<length sls. uninstall_outstanding (slices s1 ! j)) = ?u"
    unfolding s1_def using sum_nth_update[OF i n(1), of uninstall_outstanding] l(4) by simp
  have r1: "1 \<le> ?r"
    using sum_ge_nth[OF i, of "\<lambda>j. scan_outstanding (slices s ! j)"] l(2)
    by (simp add: scan_outstanding_range)
  have c1: "counters_ok (stopping s1) (active_slice_walkers s1) (active_uninstallations s1)
        (stopped_calls s1) (deleted s1) ?r ?u (sls \<noteq> [])"
    using d(4) by (simp add: s1_def)
  have ne: "sls \<noteq> []" using i by auto
  have f1: "rfailure s1 = None" using d(1) by (simp add: s1_def)
  note c2 = counters_report[OF c1 r1 f1 ne]
  have la: "list_all2 (linked h (stopping s) this) sls (slices s1)"
    unfolding s1_def using list_all2_update2[OF d(3) n(2) l(1)] by simp
  show "winv h this sls (slice_walker_done s1)"
    unfolding winv_def using c2 la d(2) sr su by (simp add: s1_def)
  have "world_measure h sls s1 < world_measure h sls s"
    unfolding world_measure_def s1_def
    using sum_nth_update_less[where g="\<lambda>j. slice_measure h (sls ! j)", OF i n(1) l(5)] by simp
  then show "world_measure h sls (slice_walker_done s1) < world_measure h sls s"
    unfolding world_measure_def by simp
qed

lemma winv_have_uninstalled:
  assumes w: "winv h this sls s" and i: "i < length sls"
    and ob: "outbox (slices s ! i) = xs @ Have_uninstalled_msg # ys"
  defines "s1 \<equiv> s\<lparr>slices := (slices s)[i := (slices s ! i)\<lparr>outbox := xs @ ys\<rparr>]\<rparr>"
  shows "winv h this sls (have_uninstalled s1)"
    and "world_measure h sls (have_uninstalled s1) < world_measure h sls s"
proof -
  note d = winvD[OF w]
  note l = linked_have_uninstalled[OF winv_linked[OF w i] ob]
  have n: "length sls \<le> length (slices s)" "i < length (slices s)" using d(5) i by simp_all
  let ?r = "\<Sum>j<length sls. scan_outstanding (slices s ! j)"
  let ?u = "\<Sum>j<length sls. uninstall_outstanding (slices s ! j)"
  have su: "(\<Sum>j<length sls. uninstall_outstanding (slices s1 ! j)) = ?u - 1"
    unfolding s1_def using sum_nth_update[OF i n(1), of uninstall_outstanding] l(2,3) by simp
  have sr: "(\<Sum>j<length sls. scan_outstanding (slices s1 ! j)) = ?r"
    unfolding s1_def using sum_nth_update[OF i n(1), of scan_outstanding] l(4) by simp
  have u1: "1 \<le> ?u"
    using sum_ge_nth[OF i, of "\<lambda>j. uninstall_outstanding (slices s ! j)"] l(2)
    by (simp add: uninstall_outstanding_range)
  have c1: "counters_ok (stopping s1) (active_slice_walkers s1) (active_uninstallations s1)
        (stopped_calls s1) (deleted s1) ?r ?u (sls \<noteq> [])"
    using d(4) by (simp add: s1_def)
  have ne: "sls \<noteq> []" using i by auto
  have f1: "rfailure s1 = None" using d(1) by (simp add: s1_def)
  have st1: "stopping s1" using l(6) by (simp add: s1_def)
  note c2 = counters_have_uninstalled[OF c1 u1 st1 f1 ne]
  have la: "list_all2 (linked h (stopping s) this) sls (slices s1)"
    unfolding s1_def using list_all2_update2[OF d(3) n(2) l(1)] by simp
  show "winv h this sls (have_uninstalled s1)"
    unfolding winv_def using c2 la d(2) sr su by (simp add: s1_def)
  have "world_measure h sls s1 < world_measure h sls s"
    unfolding world_measure_def s1_def
    using sum_nth_update_less[where g="\<lambda>j. slice_measure h (sls ! j)", OF i n(1) l(5)] by simp
  then show "world_measure h sls (have_uninstalled s1) < world_measure h sls s"
    unfolding world_measure_def by simp
qed

lemma winv_stop:
  assumes w: "winv h this sls s" and ns: "\<not> stopping s"
  shows "winv h this sls (stop s)"
    and "world_measure h sls (stop s) < world_measure h sls s"
proof -
  note d = winvD[OF w]
  let ?f = "\<lambda>sl. sl\<lparr>inbox := inbox sl @ [Uninstall_msg]\<rparr>"
  have nd: "\<not> deleted s" using d(4) ns unfolding counters_ok_def by auto
  have e: "stop s = s\<lparr>stopping := True, active_uninstallations := Some (int (length (slices s))),
             slices := map ?f (slices s)\<rparr>"
    unfolding stop_def using nd by simp
  have l0: "list_all2 (linked h False this) sls (slices s)" using d(3) ns by simp
  have la: "list_all2 (linked h True this) sls (map ?f (slices s))"
    unfolding list_all2_map2 using l0 by (rule list_all2_mono) (rule linked_stop(1))
  have nth: "j < length sls \<Longrightarrow> linked h False this (sls ! j) (slices s ! j)" for j
    using l0 by (simp add: list_all2_nthD)
  have su: "(\<Sum>j<length sls. uninstall_outstanding (map ?f (slices s) ! j)) = int (length sls)"
  proof -
    have "(\<Sum>j<length sls. uninstall_outstanding (map ?f (slices s) ! j)) = (\<Sum>j<length sls. 1)"
      using d(5) linked_stop(2)[OF nth] by (intro sum.cong) auto
    then show ?thesis by simp
  qed
  have sr: "(\<Sum>j<length sls. scan_outstanding (map ?f (slices s) ! j))
      = (\<Sum>j<length sls. scan_outstanding (slices s ! j))"
    using d(5) linked_stop(3)[OF nth] by (intro sum.cong) auto
  have sm: "(\<Sum>j<length sls. slice_measure h (sls ! j) (map ?f (slices s) ! j))
      = (\<Sum>j<length sls. slice_measure h (sls ! j) (slices s ! j) + 2)"
    using d(5) linked_stop(4)[OF nth] by (intro sum.cong) auto
  have c: "counters_ok True (active_slice_walkers s) (Some (int (length (slices s))))
      (stopped_calls s) (deleted s) (\<Sum>j<length sls. scan_outstanding (slices s ! j))
      (int (length sls)) (sls \<noteq> [])"
    using d(4,5) ns nd unfolding counters_ok_def by auto
  show "winv h this sls (stop s)"
    unfolding winv_def e using d(1,2) la c by (simp add: su sr)
  have sm2: "(\<Sum>j<length sls. slice_measure h (sls ! j) (slices s ! j) + 2)
      = (\<Sum>j<length sls. slice_measure h (sls ! j) (slices s ! j)) + 2 * length sls"
    by (simp only: sum.distrib) simp
  have "world_measure h sls (stop s)
      = (\<Sum>j<length sls. slice_measure h (sls ! j) (map ?f (slices s) ! j))"
    unfolding world_measure_def e by simp
  also have "\<dots> = (\<Sum>j<length sls. slice_measure h (sls ! j) (slices s ! j)) + 2 * length sls"
    by (simp only: sm sm2)
  also have "\<dots> < world_measure h sls s"
    unfolding world_measure_def using ns by simp
  finally show "world_measure h sls (stop s) < world_measure h sls s" .
qed

lemma winv_step:
  assumes "step s s'" "winv h this sls s"
  shows "winv h this sls s' \<and> world_measure h sls s' < world_measure h sls s"
  using assms
proof (induction rule: step.induct)
  case (on_slice s i sl')
  note d = winvD[OF on_slice.prems]
  have i: "i < length sls" using on_slice.hyps(2) d(5) by simp
  note l = linked_slice_step[OF winv_linked[OF on_slice.prems i] on_slice.hyps(3)]
  show ?case using winv_update_slice[OF on_slice.prems i l] by simp
next
  case (do_install s i sl ms)
  note d = winvD[OF do_install.prems]
  have i: "i < length sls" using do_install.hyps(2) d(5) by simp
  have ib: "inbox (slices s ! i) = Install_msg # ms" using do_install.hyps by simp
  note l = linked_install[OF winv_linked[OF do_install.prems i] ib]
  show ?case using winv_update_slice[OF do_install.prems i l(1-4)] do_install.hyps(3) d(2) by simp
next
  case (do_uninstall s i sl ms)
  note d = winvD[OF do_uninstall.prems]
  have i: "i < length sls" using do_uninstall.hyps(2) d(5) by simp
  have ib: "inbox (slices s ! i) = Uninstall_msg # ms" using do_uninstall.hyps by simp
  note l = linked_uninstall[OF winv_linked[OF do_uninstall.prems i] ib]
  show ?case using winv_update_slice[OF do_uninstall.prems i l(1-4)] do_uninstall.hyps(3) d(2) by simp
next
  case (do_report s i sl xs ys)
  note d = winvD[OF do_report.prems]
  have i: "i < length sls" using do_report.hyps(2) d(5) by simp
  have ob: "outbox (slices s ! i) = xs @ Report_msg # ys" using do_report.hyps by simp
  show ?case using winv_report[OF do_report.prems i ob] do_report.hyps(3) by simp
next
  case (do_have_uninstalled s i sl xs ys)
  note d = winvD[OF do_have_uninstalled.prems]
  have i: "i < length sls" using do_have_uninstalled.hyps(2) d(5) by simp
  have ob: "outbox (slices s ! i) = xs @ Have_uninstalled_msg # ys"
    using do_have_uninstalled.hyps by simp
  show ?case using winv_have_uninstalled[OF do_have_uninstalled.prems i ob]
      do_have_uninstalled.hyps(3) by simp
next
  case (do_stop s)
  then show ?case using winv_stop by simp
qed

lemma linked_init:
  assumes "tree_ok h sl"
  defines "s \<equiv> (walk_slice sl)\<lparr>inbox := inbox (walk_slice sl) @ [Install_msg]\<rparr>"
  shows "linked h False this sl s" "scan_outstanding s = 1" "uninstall_outstanding s = 0"
proof -
  have e: "s = sl\<lparr>active_branch_walkers := 0, txn := Not_begun, walkers := Map.empty,
     next_walker := 0, stack := [], pending := [], inbox := [Start_msg, Install_msg], outbox := [],
     trace := [], failure := None\<rparr>"
    unfolding s_def walk_slice_def by simp
  have "sinv s" unfolding sinv_def prewalk_def todo_def e by simp
  moreover have "tinv s" unfolding tinv_def tw_def todo_def e by simp
  moreover have "cinv h sl s" unfolding cinv_def debt_def todo_def e using assms(1) by simp
  ultimately show "linked h False this sl s"
    unfolding linked_def by (simp add: e inbox_ok_def)
  show "scan_outstanding s = 1" unfolding scan_outstanding_def e by simp
  show "uninstall_outstanding s = 0" unfolding uninstall_outstanding_def e by simp
qed

lemma winv_construct:
  assumes t: "\<forall>sl \<in> set sls. tree_ok h sl"
  shows "winv h this sls (construct this sls)"
proof -
  let ?f = "\<lambda>sl. (walk_slice sl)\<lparr>inbox := inbox (walk_slice sl) @ [Install_msg]\<rparr>"
  have sl: "slices (construct this sls) = map ?f sls"
    unfolding construct_def by simp
  have la: "list_all2 (linked h False this) sls (map ?f sls)"
    unfolding list_all2_map2 using t by (auto simp: list_all2_same intro: linked_init(1))
  have nth: "j < length sls \<Longrightarrow> tree_ok h (sls ! j)" for j using t by simp
  have sr: "(\<Sum>j<length sls. scan_outstanding (map ?f sls ! j)) = int (length sls)"
  proof -
    have "(\<Sum>j<length sls. scan_outstanding (map ?f sls ! j)) = (\<Sum>j<length sls. 1)"
      using linked_init(2)[OF nth] by (intro sum.cong) auto
    then show ?thesis by simp
  qed
  have su: "(\<Sum>j<length sls. uninstall_outstanding (map ?f sls ! j)) = 0"
  proof -
    have "(\<Sum>j<length sls. uninstall_outstanding (map ?f sls ! j)) = (\<Sum>j<length sls. 0)"
      using linked_init(3)[OF nth] by (intro sum.cong) auto
    then show ?thesis by simp
  qed
  have c: "counters_ok False (int (length sls)) None 0 False (int (length sls)) 0 (sls \<noteq> [])"
    unfolding counters_ok_def by simp
  show ?thesis
    unfolding winv_def sl sr su using la c by (simp add: construct_def)
qed

lemma winv_reachable:
  assumes "step\<^sup>*\<^sup>* (construct this sls) s" "\<forall>sl \<in> set sls. tree_ok h sl"
  shows "winv h this sls s"
  using assms(1)
proof (induction rule: rtranclp_induct)
  case base
  show ?case by (rule winv_construct[OF assms(2)])
next
  case (step y z)
  then show ?case using winv_step by blast
qed

lemma winv_rtranclp:
  assumes "step\<^sup>*\<^sup>* s s'" "winv h this sls s"
  shows "winv h this sls s'"
  using assms
proof (induction rule: rtranclp_induct)
  case base
  then show ?case by simp
next
  case (step y z)
  then show ?case using winv_step by blast
qed

lemma winv_relpowp:
  assumes "(step ^^ n) s s'" "winv h this sls s"
  shows "winv h this sls s' \<and> world_measure h sls s' + n \<le> world_measure h sls s"
  using assms
proof (induction n arbitrary: s')
  case 0
  then show ?case by simp
next
  case (Suc n)
  from Suc.prems(1) obtain y where y: "(step ^^ n) s y" "step y s'" by auto
  from Suc.IH[OF y(1) Suc.prems(2)] have i: "winv h this sls y"
    "world_measure h sls y + n \<le> world_measure h sls s" by simp_all
  from winv_step[OF y(2) i(1)] i(2) show ?case by simp
qed

lemma owners_Nil_owner:
  "owners cs = [] \<Longrightarrow> c \<in> set cs \<Longrightarrow> owner c = None"
  by (induction cs) (auto split: option.splits)

lemma guarded_no_walk:
  "guarded cs \<Longrightarrow> owners cs = [] \<Longrightarrow> Walk_branch b \<notin> set cs"
proof -
  assume g: "guarded cs" and o: "owners cs = []"
  have "\<forall>w. Delete_this w \<notin> set cs" using delete_in_owners[of _ cs] o by auto
  then show ?thesis by (rule guarded_no_delete[OF g])
qed


lemma committed_todo:
  assumes s: "sinv s" and tx: "txn s = Committed"
  shows "pending s = []" "set (stack s) \<subseteq> {Release_superblock}" "Start_msg \<notin> set (inbox s)"
    "active_branch_walkers s = 0" "n_destroyed (trace s) = n_constructed (trace s)"
    "walkers s = Map.empty"
proof -
  note d = sinvD[OF s]
  have w: "walking s" using d(10) tx unfolding prewalk_def by auto
  then have o: "owners (todo s) = []" using tx unfolding walking_def by auto
  then have os: "owners (stack s) = []" "owners (pending s) = []" by (simp_all add: todo_def)
  show "pending s = []"
  proof (cases "pending s")
    case (Cons c cs)
    then have "is_callback c" using w unfolding walking_def by simp
    then have "owner c \<noteq> None" by (cases c) simp_all
    then show ?thesis using owners_Nil_owner[OF os(2), of c] Cons by simp
  qed simp
  show "set (stack s) \<subseteq> {Release_superblock}"
  proof
    fix c assume c: "c \<in> set (stack s)"
    have n: "owner c = None" by (rule owners_Nil_owner[OF os(1) c])
    have "c \<noteq> Start" "c \<noteq> Superblock_available"
      using w c unfolding walking_def todo_def by auto
    moreover have "\<forall>b. c \<noteq> Walk_branch b"
      using guarded_no_walk[OF _ os(1)] w c unfolding walking_def by auto
    ultimately show "c \<in> {Release_superblock}" using n by (cases c) auto
  qed
  show "Start_msg \<notin> set (inbox s)" using w unfolding walking_def by simp
  show "active_branch_walkers s = 0" using d(2) o by simp
  show "n_destroyed (trace s) = n_constructed (trace s)" using d(7,8) o by simp
  show "walkers s = Map.empty" using d(4) o by simp
qed




lemma linked_progress:
  assumes l: "linked h st this sl0 sl"
  shows "(\<exists>sl'. slice_step sl sl') \<or>
    (stack sl = [] \<and> (\<exists>ms. inbox sl = Install_msg # ms \<or> inbox sl = Uninstall_msg # ms)) \<or>
    (stack sl = [] \<and> pending sl = [] \<and> inbox sl = [] \<and> txn sl = Committed)"
proof -
  note d = linkedD[OF l]
  note sd = sinvD[OF d(1)]
  show ?thesis
  proof (cases "stack sl")
    case (Cons c cs)
    from slice_step.run[OF sd(1) Cons, of True] show ?thesis by blast
  next
    case Nil
    note st = Nil
    show ?thesis
    proof (cases "pending sl")
      case (Cons c cs)
      then have "pending sl = [] @ c # cs" by simp
      from slice_step.resume[OF sd(1) st this] show ?thesis by blast
    next
      case Nil
      note pe = Nil
      show ?thesis
      proof (cases "inbox sl")
        case (Cons m ms)
        then have "m = Start_msg \<or> m = Install_msg \<or> m = Uninstall_msg"
          using d(4) unfolding inbox_ok_def by (auto split: if_splits)
        then show ?thesis
          using slice_step.begin_walk[OF sd(1) st, of ms] Cons st by blast
      next
        case Nil
        have "\<not> prewalk sl" unfolding prewalk_def using st pe Nil by simp
        then have "walking sl" using sd(10) by simp
        then have "txn sl = Committed"
          unfolding walking_def todo_def using st pe by (cases "txn sl") simp_all
        then show ?thesis using st pe Nil by simp
      qed
    qed
  qed
qed

lemma winv_terminal:
  assumes w: "winv h this sls s" and t: "\<forall>s'. \<not> step s s'" and i: "i < length sls"
  shows "stopping s" "stack (slices s ! i) = []" "pending (slices s ! i) = []"
    "inbox (slices s ! i) = []" "outbox (slices s ! i) = []" "txn (slices s ! i) = Committed"
    "scan_outstanding (slices s ! i) = 0" "uninstall_outstanding (slices s ! i) = 0"
proof -
  note d = winvD[OF w]
  have nc: "\<not> crashed s" by (rule winv_not_crashed[OF w])
  have il: "i < length (slices s)" using i d(5) by simp
  note l = winv_linked[OF w i]
  note ld = linkedD[OF l]
  show "stopping s"
  proof (rule ccontr)
    assume "\<not> stopping s"
    from t[rule_format] step.do_stop[OF nc this] show False by (rule notE)
  qed
  have ns: "\<not> slice_step (slices s ! i) sl'" for sl'
  proof
    assume "slice_step (slices s ! i) sl'"
    from t[rule_format] step.on_slice[OF nc il this] show False by (rule notE)
  qed
  have ni: "stack (slices s ! i) = [] \<Longrightarrow> inbox (slices s ! i) = Install_msg # ms \<Longrightarrow> False" for ms
    using t[rule_format] step.do_install[OF nc il refl] by (rule notE)
  have nu: "stack (slices s ! i) = [] \<Longrightarrow> inbox (slices s ! i) = Uninstall_msg # ms \<Longrightarrow> False" for ms
    using t[rule_format] step.do_uninstall[OF nc il refl] by (rule notE)
  have "stack (slices s ! i) = [] \<and> pending (slices s ! i) = [] \<and>
    inbox (slices s ! i) = [] \<and> txn (slices s ! i) = Committed"
  proof -
    from linked_progress[OF l] consider
      sl' where "slice_step (slices s ! i) sl'" |
      ms where "stack (slices s ! i) = []" "inbox (slices s ! i) = Install_msg # ms" |
      ms where "stack (slices s ! i) = []" "inbox (slices s ! i) = Uninstall_msg # ms" |
      "stack (slices s ! i) = [] \<and> pending (slices s ! i) = [] \<and>
       inbox (slices s ! i) = [] \<and> txn (slices s ! i) = Committed"
      by blast
    then show ?thesis
    proof cases
      case 1
      then show ?thesis using ns by simp
    next
      case 2
      from ni[OF 2] show ?thesis ..
    next
      case 3
      from nu[OF 3] show ?thesis ..
    next
      case 4
      then show ?thesis .
    qed
  qed
  then show q: "stack (slices s ! i) = []" "pending (slices s ! i) = []"
    "inbox (slices s ! i) = []" "txn (slices s ! i) = Committed" by simp_all
  have nr: "Report_msg \<notin> set (outbox (slices s ! i))"
  proof
    assume "Report_msg \<in> set (outbox (slices s ! i))"
    from split_list[OF this] obtain xs ys where "outbox (slices s ! i) = xs @ Report_msg # ys"
      by blast
    from t[rule_format] step.do_report[OF nc il refl this] show False by (rule notE)
  qed
  have nh: "Have_uninstalled_msg \<notin> set (outbox (slices s ! i))"
  proof
    assume "Have_uninstalled_msg \<in> set (outbox (slices s ! i))"
    from split_list[OF this] obtain xs ys
      where "outbox (slices s ! i) = xs @ Have_uninstalled_msg # ys"
      by blast
    from t[rule_format] step.do_have_uninstalled[OF nc il refl this] show False by (rule notE)
  qed
  show "outbox (slices s ! i) = []"
  proof (cases "outbox (slices s ! i)")
    case (Cons m ms)
    then show ?thesis using ld(5) nr nh by auto
  qed simp
  show "scan_outstanding (slices s ! i) = 0"
    unfolding scan_outstanding_def using q(4) nr by simp
  show "uninstall_outstanding (slices s ! i) = 0"
    unfolding uninstall_outstanding_def using q(3) nh by simp
qed

lemma winv_terminal_stopped:
  assumes w: "winv h this sls s" and t: "\<forall>s'. \<not> step s s'" and ne: "sls \<noteq> []"
  shows "stopped_calls s = 1" "deleted s"
proof -
  note d = winvD[OF w]
  have "(\<Sum>i<length sls. scan_outstanding (slices s ! i)) = 0"
    using winv_terminal(7)[OF w t] by simp
  moreover have "(\<Sum>i<length sls. uninstall_outstanding (slices s ! i)) = 0"
    using winv_terminal(8)[OF w t] by simp
  moreover have "stopping s" using winv_terminal(1)[OF w t, of 0] ne by simp
  ultimately show "stopped_calls s = 1" "deleted s"
    using d(4) ne unfolding counters_ok_def by auto
qed

lemma counters_ok_stopped:
  assumes "counters_ok st asw au sc del r u ne"
  shows "sc \<le> 1" "0 < sc \<Longrightarrow> st \<and> asw = 0 \<and> au = Some 0" "0 < sc \<longleftrightarrow> del"
    "\<not> st \<Longrightarrow> sc = 0 \<and> \<not> del \<and> au = None"
  using assms by (cases del; simp add: counters_ok_def)+

lemma winv_stopped_calls:
  assumes w: "winv h this sls s"
  shows "stopped_calls s \<le> 1"
    "0 < stopped_calls s \<Longrightarrow>
       stopping s \<and> active_slice_walkers s = 0 \<and> active_uninstallations s = Some 0"
    "0 < stopped_calls s \<longleftrightarrow> deleted s"
  using counters_ok_stopped[OF winvD(4)[OF w]] by blast+

lemma slice_fire_step: "slice_fire c s = Some s' \<Longrightarrow> slice_step s s'"
proof (cases c)
  case (Run now)
  assume a: "slice_fire c s = Some s'"
  show ?thesis
  proof (cases "stack s")
    case Nil
    then show ?thesis using a Run by (simp split: if_splits)
  next
    case (Cons x xs)
    then have "failure s = None" "s' = exec now x (s\<lparr>stack := xs\<rparr>)"
      using a Run by (simp_all split: if_splits)
    then show ?thesis using slice_step.run[OF _ Cons, of now] by simp
  qed
next
  case (Resume k)
  assume a: "slice_fire c s = Some s'"
  then have f: "failure s = None" "stack s = []" "k < length (pending s)"
    "s' = s\<lparr>pending := take k (pending s) @ drop (Suc k) (pending s), stack := [pending s ! k]\<rparr>"
    using Resume by (simp_all split: if_splits)
  have "pending s = take k (pending s) @ pending s ! k # drop (Suc k) (pending s)"
    using f(3) by (simp add: id_take_nth_drop[symmetric])
  from slice_step.resume[OF f(1,2) this] show ?thesis using f(4) by simp
next
  case Begin_walk
  assume a: "slice_fire c s = Some s'"
  then obtain ms where f: "failure s = None" "stack s = []" "inbox s = Start_msg # ms"
    "s' = s\<lparr>inbox := ms, stack := [Start]\<rparr>"
    using Begin_walk by (auto split: if_splits list.splits msg.splits)
  from slice_step.begin_walk[OF f(1,2,3)] show ?thesis using f(4) by simp
qed

lemma slice_run_steps: "slice_run cs s = Some s' \<Longrightarrow> slice_step\<^sup>*\<^sup>* s s'"
proof (induction cs arbitrary: s)
  case Nil
  then show ?case by simp
next
  case (Cons c cs)
  then obtain s1 where s1: "slice_fire c s = Some s1" "slice_run cs s1 = Some s'"
    by (auto split: option.splits)
  from slice_fire_step[OF s1(1)] Cons.IH[OF s1(2)] show ?case
    by (rule converse_rtranclp_into_rtranclp)
qed

lemma remove1_split:
  assumes "m \<in> set ms"
  shows "\<exists>xs ys. ms = xs @ m # ys \<and> remove1 m ms = xs @ ys"
proof -
  from split_list_first[OF assms] obtain xs ys where "ms = xs @ m # ys" "m \<notin> set xs" by blast
  then have "remove1 m ms = xs @ ys" by (simp add: remove1_append)
  then show ?thesis using \<open>ms = xs @ m # ys\<close> by blast
qed

lemma fire_step: "fire c s = Some s' \<Longrightarrow> step s s'"
proof (cases c)
  case (On_slice i sc)
  assume a: "fire c s = Some s'"
  then obtain sl' where f: "\<not> crashed s" "i < length (slices s)"
    "slice_fire sc (slices s ! i) = Some sl'" "s' = s\<lparr>slices := (slices s)[i := sl']\<rparr>"
    using On_slice by (auto split: if_splits option.splits)
  from step.on_slice[OF f(1,2) slice_fire_step[OF f(3)]] show ?thesis using f(4) by simp
next
  case (Take_install i)
  assume a: "fire c s = Some s'"
  then obtain ms where f: "\<not> crashed s" "i < length (slices s)" "stack (slices s ! i) = []"
    "inbox (slices s ! i) = Install_msg # ms"
    "s' = s\<lparr>slices := (slices s)[i := install (self s) ((slices s ! i)\<lparr>inbox := ms\<rparr>)]\<rparr>"
    using Take_install by (auto split: if_splits list.splits msg.splits)
  from step.do_install[OF f(1,2) refl f(3,4)] show ?thesis using f(5) by simp
next
  case (Take_uninstall i)
  assume a: "fire c s = Some s'"
  then obtain ms where f: "\<not> crashed s" "i < length (slices s)" "stack (slices s ! i) = []"
    "inbox (slices s ! i) = Uninstall_msg # ms"
    "s' = s\<lparr>slices := (slices s)[i := uninstall (stopping s) (self s)
        ((slices s ! i)\<lparr>inbox := ms\<rparr>)]\<rparr>"
    using Take_uninstall by (auto split: if_splits list.splits msg.splits)
  from step.do_uninstall[OF f(1,2) refl f(3,4)] show ?thesis using f(5) by simp
next
  case (Take_report i)
  assume a: "fire c s = Some s'"
  then have f: "\<not> crashed s" "i < length (slices s)" "Report_msg \<in> set (outbox (slices s ! i))"
    "s' = slice_walker_done (s\<lparr>slices := (slices s)[i := (slices s ! i)
        \<lparr>outbox := remove1 Report_msg (outbox (slices s ! i))\<rparr>]\<rparr>)"
    using Take_report by (simp_all split: if_splits)
  from remove1_split[OF f(3)] obtain xs ys where
    x: "outbox (slices s ! i) = xs @ Report_msg # ys"
       "remove1 Report_msg (outbox (slices s ! i)) = xs @ ys" by blast
  from step.do_report[OF f(1,2) refl x(1)] show ?thesis using f(4) x(2) by simp
next
  case (Take_have_uninstalled i)
  assume a: "fire c s = Some s'"
  then have f: "\<not> crashed s" "i < length (slices s)"
    "Have_uninstalled_msg \<in> set (outbox (slices s ! i))"
    "s' = have_uninstalled (s\<lparr>slices := (slices s)[i := (slices s ! i)
        \<lparr>outbox := remove1 Have_uninstalled_msg (outbox (slices s ! i))\<rparr>]\<rparr>)"
    using Take_have_uninstalled by (simp_all split: if_splits)
  from remove1_split[OF f(3)] obtain xs ys where
    x: "outbox (slices s ! i) = xs @ Have_uninstalled_msg # ys"
       "remove1 Have_uninstalled_msg (outbox (slices s ! i)) = xs @ ys" by blast
  from step.do_have_uninstalled[OF f(1,2) refl x(1)] show ?thesis using f(4) x(2) by simp
next
  case Call_stop
  assume a: "fire c s = Some s'"
  then have f: "\<not> crashed s" "\<not> stopping s" "s' = stop s"
    using Call_stop by (simp_all split: if_splits)
  from step.do_stop[OF f(1,2)] show ?thesis using f(3) by simp
qed

lemma run_schedule_steps: "run_schedule cs s = Some s' \<Longrightarrow> step\<^sup>*\<^sup>* s s'"
proof (induction cs arbitrary: s)
  case Nil
  then show ?case by simp
next
  case (Cons c cs)
  then obtain s1 where s1: "fire c s = Some s1" "run_schedule cs s1 = Some s'"
    by (auto split: option.splits)
  from fire_step[OF s1(1)] Cons.IH[OF s1(2)] show ?case
    by (rule converse_rtranclp_into_rtranclp)
qed

lemma run_schedule_the:
  "run_schedule cs s \<noteq> None \<Longrightarrow> step\<^sup>*\<^sup>* s (the (run_schedule cs s))"
  using run_schedule_steps[of cs s] by auto

lemma slice_run_the:
  "slice_run cs s \<noteq> None \<Longrightarrow> slice_step\<^sup>*\<^sup>* s (the (slice_run cs s))"
  using slice_run_steps[of cs s] by auto

lemma sinv_walk_slice: "sinv (walk_slice sl)"
  unfolding sinv_def prewalk_def todo_def walk_slice_def by simp

lemma tinv_walk_slice: "tinv (walk_slice sl)"
  unfolding tinv_def tw_def todo_def walk_slice_def by simp

lemma slice_reachable:
  assumes "slice_step\<^sup>*\<^sup>* (walk_slice sl) s"
  shows "sinv s \<and> tinv s"
  using assms
proof (induction rule: rtranclp_induct)
  case base
  show ?case using sinv_walk_slice tinv_walk_slice by simp
next
  case (step y z)
  then show ?case using sinv_slice_step[of y z] tinv_slice_step[of y z] by simp
qed

text \<open>
  C3. In every state a traversal of a slice reaches, \<^verbatim>\<open>active_branch_walkers\<close> is the number
  of \<^verbatim>\<open>branch_walker_t\<close> constructions minus the number of destructions so far, it is the
  number of live walkers, it is not negative, and no assertion has failed; once the
  transaction is committed (which is when \<^verbatim>\<open>report\<close> is scheduled) every walker constructed
  has been destroyed and the counter is zero.
\<close>

theorem counter_balance:
  assumes "slice_step\<^sup>*\<^sup>* (walk_slice sl) s"
  shows "active_branch_walkers s = int (n_constructed (trace s)) - int (n_destroyed (trace s))
    \<and> active_branch_walkers s = int (card (dom (walkers s)))
    \<and> 0 \<le> active_branch_walkers s
    \<and> failure s = None
    \<and> (txn s = Committed \<or> Report_msg \<in> set (outbox s) \<longrightarrow>
         active_branch_walkers s = 0 \<and> n_destroyed (trace s) = n_constructed (trace s))"
proof -
  have s: "sinv s" using slice_reachable[OF assms] by simp
  note d = sinvD[OF s]
  have c: "card (dom (walkers s)) = length (owners (todo s))"
    using d(3,4) by (simp add: distinct_card)
  have r: "Report_msg \<in> set (outbox s) \<Longrightarrow> txn s = Committed"
    using d(10) unfolding prewalk_def walking_def by auto
  show ?thesis
    using d(1,2,7,8) c r committed_todo(4,5)[OF s] by auto
qed

theorem counter_balance_witness:
  "active_branch_walkers (the (slice_run (Begin_walk # replicate 6 (Run True)) (walk_slice shard_C))) = 2
   \<and> n_constructed (trace (the (slice_run (Begin_walk # replicate 6 (Run True)) (walk_slice shard_C)))) = 2
   \<and> n_destroyed (trace (the (slice_run (Begin_walk # replicate 6 (Run True)) (walk_slice shard_C)))) = 0
   \<and> card (dom (walkers (the (slice_run (Begin_walk # replicate 6 (Run True)) (walk_slice shard_C))))) = 2"
proof -
  let ?s = "the (slice_run (Begin_walk # replicate 6 (Run True)) (walk_slice shard_C))"
  have r: "slice_run (Begin_walk # replicate 6 (Run True)) (walk_slice shard_C) \<noteq> None"
    by code_simp
  have e: "n_constructed (trace ?s) = 2" "n_destroyed (trace ?s) = 0"
    by code_simp+
  from counter_balance[OF slice_run_the[OF r]] e show ?thesis by simp
qed

text \<open>
  C4. In every state a traversal of a slice reaches, the trace obeys the discipline
  \<open>back_pressure\<close>: a walker acquires a large value only while it holds none and the sink is
  done with its last delivery, it delivers a value only when the sink is done with its last
  delivery, and it releases the large value only after the done-continuation of the delivery.
  So a walker holds at most one large value and has at most one delivery outstanding.
\<close>

theorem back_pressure_holds:
  assumes "slice_step\<^sup>*\<^sup>* (walk_slice sl) s"
  shows "back_pressure (trace s)
    \<and> (\<forall>w. (held w (trace s) = 0 \<or> held w (trace s) = 1)
          \<and> (unacked w (trace s) = 0 \<or> unacked w (trace s) = 1))"
proof -
  have t: "tinv s" using slice_reachable[OF assms] by simp
  then have "tw s w" for w unfolding tinv_def by simp
  then have "(held w (trace s) = 0 \<or> held w (trace s) = 1)
          \<and> (unacked w (trace s) = 0 \<or> unacked w (trace s) = 1)" for w
    unfolding tw_def by (simp split: option.splits if_splits)
  then show ?thesis using t unfolding tinv_def by simp
qed

theorem back_pressure_holds_witness:
  "back_pressure (trace (the (slice_run (Begin_walk # replicate 6 (Run True)) (walk_slice shard_A))))
   \<and> trace (the (slice_run (Begin_walk # replicate 6 (Run True)) (walk_slice shard_A)))
     = [E_value 0 ''b'' [''xy'', ''z'', ''w''] 2 0 5, E_large_acquire 0 7, E_done 0,
        E_value 0 ''a'' [''1''] 0 0 0, E_acquire 0 1, E_construct 0, E_acquire_super, E_begin]
   \<and> held 0 (trace (the (slice_run (Begin_walk # replicate 6 (Run True)) (walk_slice shard_A)))) = 1
   \<and> unacked 0 (trace (the (slice_run (Begin_walk # replicate 6 (Run True)) (walk_slice shard_A)))) = 1"
proof -
  let ?s = "the (slice_run (Begin_walk # replicate 6 (Run True)) (walk_slice shard_A))"
  have r: "slice_run (Begin_walk # replicate 6 (Run True)) (walk_slice shard_A) \<noteq> None"
    by code_simp
  have e: "trace ?s
     = [E_value 0 ''b'' [''xy'', ''z'', ''w''] 2 0 5, E_large_acquire 0 7, E_done 0,
        E_value 0 ''a'' [''1''] 0 0 0, E_acquire 0 1, E_construct 0, E_acquire_super, E_begin]"
    by code_simp
  from back_pressure_holds[OF slice_run_the[OF r]] e show ?thesis by simp
qed

lemma empty_walk_init: "root_block sl = None \<Longrightarrow> empty_walk 4 (walk_slice sl)"
  unfolding empty_walk_def walk_slice_def by simp

lemma empty_walk_step:
  assumes "slice_step s s'" "empty_walk n s"
  shows "\<exists>m < n. empty_walk m s'"
  using assms
proof (induction rule: slice_step.induct)
  case (run s c cs now)
  then consider "n = 3" "c = Start" "cs = []" | "n = 1" "c = Superblock_available" "cs = []"
    unfolding empty_walk_def by auto
  then show ?case
  proof cases
    case 1
    show ?thesis
    proof (cases now)
      case True
      have "empty_walk 1 (exec now c (s\<lparr>stack := cs\<rparr>))"
        using run 1 True unfolding empty_walk_def
        by (simp add: start_def hand_over_def emit_def)
      then show ?thesis using 1 by (intro exI[of _ 1]) simp
    next
      case False
      have "empty_walk 2 (exec now c (s\<lparr>stack := cs\<rparr>))"
        using run 1 False unfolding empty_walk_def
        by (simp add: start_def hand_over_def emit_def)
      then show ?thesis using 1 by (intro exI[of _ 2]) simp
    qed
  next
    case 2
    have "empty_walk 0 (exec now c (s\<lparr>stack := cs\<rparr>))"
      using run 2 unfolding empty_walk_def
      by (simp add: slice_on_block_available_def slice_done_def emit_def)
    then show ?thesis using 2 by (intro exI[of _ 0]) simp
  qed
next
  case (resume s xs c ys)
  then have "n = 2" "c = Superblock_available" "xs = []" "ys = []"
    unfolding empty_walk_def by (auto simp: append_eq_Cons_conv Cons_eq_append_conv)
  then have "empty_walk 1 (s\<lparr>pending := xs @ ys, stack := [c]\<rparr>)"
    using resume unfolding empty_walk_def by simp
  then show ?case using \<open>n = 2\<close> by (intro exI[of _ 1]) simp
next
  case (begin_walk s ms)
  then have "n = 4" "ms = []" unfolding empty_walk_def by auto
  then have "empty_walk 3 (s\<lparr>inbox := ms, stack := [Start]\<rparr>)"
    using begin_walk unfolding empty_walk_def by simp
  then show ?case using \<open>n = 4\<close> by (intro exI[of _ 3]) simp
qed

lemma empty_walk_reachable:
  assumes "slice_step\<^sup>*\<^sup>* s0 s" "empty_walk n s0"
  shows "\<exists>m \<le> n. empty_walk m s"
  using assms
proof (induction rule: rtranclp_induct)
  case base
  then show ?case by auto
next
  case (step y z)
  then obtain m where m: "m \<le> n" "empty_walk m y" by auto
  from empty_walk_step[OF step(2) m(2)] obtain m' where m': "m' < m" "empty_walk m' z" by auto
  then have "m' \<le> n" using m(1) by simp
  then show ?case using m'(2) by blast
qed

lemma empty_walk_relpowp:
  assumes "(slice_step ^^ k) s s'" "empty_walk n s"
  shows "\<exists>m. m + k \<le> n \<and> empty_walk m s'"
  using assms
proof (induction k arbitrary: s')
  case 0
  then show ?case by auto
next
  case (Suc k)
  from Suc.prems(1) obtain y where y: "(slice_step ^^ k) s y" "slice_step y s'" by auto
  from Suc.IH[OF y(1) Suc.prems(2)] obtain m where m: "m + k \<le> n" "empty_walk m y" by auto
  from empty_walk_step[OF y(2) m(2)] obtain m' where m': "m' < m" "empty_walk m' s'" by auto
  then have "m' + Suc k \<le> n" using m(1) by simp
  then show ?case using m'(2) by blast
qed

lemma empty_walk_progress:
  assumes "empty_walk n s" "0 < n"
  shows "\<exists>s'. slice_step s s'"
proof -
  have f: "failure s = None" using assms(1) unfolding empty_walk_def by simp
  from assms consider "stack s = [Start]" | "stack s = [Superblock_available]" |
    "stack s = []" "pending s = [] @ Superblock_available # []" |
    "stack s = []" "inbox s = Start_msg # []"
    unfolding empty_walk_def by auto
  then show ?thesis
  proof cases
    case 1
    from slice_step.run[OF f 1, of True] show ?thesis by blast
  next
    case 2
    from slice_step.run[OF f 2, of True] show ?thesis by blast
  next
    case 3
    from slice_step.resume[OF f 3] show ?thesis by blast
  next
    case 4
    from slice_step.begin_walk[OF f 4] show ?thesis by blast
  qed
qed

text \<open>
  C8. On a slice whose superblock has no root (\<^verbatim>\<open>root_block == NULL_BLOCK_ID\<close>) the walk never
  constructs a \<^verbatim>\<open>branch_walker_t\<close>: \<^verbatim>\<open>slice_walker_t::on_block_available\<close> calls \<^verbatim>\<open>done()\<close>
  at once, which commits the transaction and schedules \<^verbatim>\<open>report\<close>, and releases the
  superblock. Every run of the walk ends after at most four steps, and when it has ended
  the transaction is committed and exactly one \<^verbatim>\<open>report\<close> has been scheduled.
\<close>

theorem empty_tree_completes:
  assumes "root_block sl = None" and "slice_step\<^sup>*\<^sup>* (walk_slice sl) s"
  shows "n_constructed (trace s) = 0 \<and> walkers s = Map.empty \<and> active_branch_walkers s = 0
    \<and> failure s = None
    \<and> count_list (outbox s) Report_msg = n_commits (trace s) \<and> n_commits (trace s) \<le> 1
    \<and> (txn s = Open_txn \<longrightarrow>
         slice_on_block_available s =
           s\<lparr>txn := Committed, outbox := outbox s @ [Report_msg],
             trace := E_release_super # E_commit # trace s\<rparr>)
    \<and> (\<forall>k s'. (slice_step ^^ k) s s' \<longrightarrow> k \<le> 4)
    \<and> ((\<forall>s'. \<not> slice_step s s') \<longrightarrow>
         txn s = Committed \<and> outbox s = [Report_msg] \<and>
         trace s = [E_release_super, E_commit, E_acquire_super, E_begin])"
proof -
  from empty_walk_reachable[OF assms(2) empty_walk_init[OF assms(1)]]
  obtain n where n: "n \<le> 4" "empty_walk n s" by blast
  have a: "n_constructed (trace s) = 0 \<and> walkers s = Map.empty \<and> active_branch_walkers s = 0
    \<and> failure s = None
    \<and> count_list (outbox s) Report_msg = n_commits (trace s) \<and> n_commits (trace s) \<le> 1"
    using n(2) unfolding empty_walk_def by auto
  have b: "txn s = Open_txn \<longrightarrow>
         slice_on_block_available s =
           s\<lparr>txn := Committed, outbox := outbox s @ [Report_msg],
             trace := E_release_super # E_commit # trace s\<rparr>"
    using n(2) unfolding empty_walk_def
    by (auto simp: slice_on_block_available_def slice_done_def emit_def)
  have c: "k \<le> 4" if "(slice_step ^^ k) s s'" for k s'
    using empty_walk_relpowp[OF that n(2)] n(1) by auto
  have d: "txn s = Committed \<and> outbox s = [Report_msg] \<and>
         trace s = [E_release_super, E_commit, E_acquire_super, E_begin]"
    if "\<forall>s'. \<not> slice_step s s'"
  proof -
    have "n = 0" using empty_walk_progress[OF n(2)] that by auto
    then show ?thesis using n(2) unfolding empty_walk_def by simp
  qed
  show ?thesis using a b c d by blast
qed

theorem empty_tree_completes_witness:
  "root_block shard_B = None
   \<and> trace (the (slice_run [Begin_walk, Run False, Resume 0, Run True] (walk_slice shard_B)))
       = [E_release_super, E_commit, E_acquire_super, E_begin]
   \<and> outbox (the (slice_run [Begin_walk, Run False, Resume 0, Run True] (walk_slice shard_B)))
       = [Report_msg]
   \<and> n_constructed (trace (the (slice_run [Begin_walk, Run False, Resume 0, Run True]
         (walk_slice shard_B)))) = 0
   \<and> n_commits (trace (the (slice_run [Begin_walk, Run False, Resume 0, Run True]
         (walk_slice shard_B)))) = 1"
proof -
  let ?s = "the (slice_run [Begin_walk, Run False, Resume 0, Run True] (walk_slice shard_B))"
  have r: "slice_run [Begin_walk, Run False, Resume 0, Run True] (walk_slice shard_B) \<noteq> None"
    by code_simp
  have b: "root_block shard_B = None" by code_simp
  have e: "trace ?s = [E_release_super, E_commit, E_acquire_super, E_begin]"
    "outbox ?s = [Report_msg]"
    by code_simp+
  from empty_tree_completes[OF b slice_run_the[OF r]] b e show ?thesis by simp
qed

lemma guard_step:
  assumes "step s s'"
    and "(\<not> stopping s \<longrightarrow> stopped_calls s = 0 \<and> \<not> deleted s \<and> active_uninstallations s = None)
       \<and> (stopping s \<longrightarrow> active_uninstallations s \<noteq> None)
       \<and> rfailure s \<noteq> Some Uninitialized_read"
  shows "(\<not> stopping s' \<longrightarrow> stopped_calls s' = 0 \<and> \<not> deleted s' \<and> active_uninstallations s' = None)
       \<and> (stopping s' \<longrightarrow> active_uninstallations s' \<noteq> None)
       \<and> rfailure s' \<noteq> Some Uninitialized_read"
  using assms
proof (induction rule: step.induct)
  case (do_report s i sl xs ys)
  then show ?case
    unfolding slice_walker_done_def replicant_done_def rcrash_def Let_def
    by (auto split: option.splits)
next
  case (do_have_uninstalled s i sl xs ys)
  then show ?case
    unfolding have_uninstalled_def replicant_done_def rcrash_def Let_def
    by (auto split: option.splits)
next
  case (do_stop s)
  then show ?case unfolding stop_def rcrash_def by auto
qed simp_all

text \<open>
  C10. In every state reachable from the constructor: while \<^verbatim>\<open>stopping\<close> is false the sink's
  \<^verbatim>\<open>stopped()\<close> has not been called, the replicant is not deleted and
  \<^verbatim>\<open>active_uninstallations\<close> is still uninitialised; once \<^verbatim>\<open>stopping\<close> is true the counter has
  been set; and no step has read the uninitialised counter. In particular
  \<^verbatim>\<open>slice_walker_done\<close> does not finalise while \<^verbatim>\<open>stopping\<close> is false, also when it brings
  \<^verbatim>\<open>active_slice_walkers\<close> to zero.
\<close>

theorem finalization_needs_stop:
  assumes "step\<^sup>*\<^sup>* (construct this sls) s"
  shows "(\<not> stopping s \<longrightarrow>
           stopped_calls s = 0 \<and> \<not> deleted s \<and> active_uninstallations s = None
           \<and> stopped_calls (slice_walker_done s) = 0
           \<and> rfailure (slice_walker_done s) \<noteq> Some Uninitialized_read)
       \<and> (stopping s \<longrightarrow> active_uninstallations s \<noteq> None)
       \<and> rfailure s \<noteq> Some Uninitialized_read"
proof -
  have "(\<not> stopping s \<longrightarrow> stopped_calls s = 0 \<and> \<not> deleted s \<and> active_uninstallations s = None)
       \<and> (stopping s \<longrightarrow> active_uninstallations s \<noteq> None)
       \<and> rfailure s \<noteq> Some Uninitialized_read"
    using assms
  proof (induction rule: rtranclp_induct)
    case base
    show ?case unfolding construct_def by simp
  next
    case (step y z)
    from guard_step[OF step(2) step(3)] show ?case .
  qed
  then show ?thesis
    unfolding slice_walker_done_def replicant_done_def rcrash_def Let_def
    by (auto split: option.splits)
qed

theorem finalization_needs_stop_witness:
  "\<not> stopping (the (run_schedule scans_only (construct 5 store_AB)))
   \<and> active_slice_walkers (the (run_schedule scans_only (construct 5 store_AB))) = 0
   \<and> map txn (slices (the (run_schedule scans_only (construct 5 store_AB)))) = [Committed, Committed]
   \<and> stopped_calls (the (run_schedule scans_only (construct 5 store_AB))) = 0
   \<and> active_uninstallations (the (run_schedule scans_only (construct 5 store_AB))) = None
   \<and> rfailure (the (run_schedule scans_only (construct 5 store_AB))) = None"
proof -
  let ?s = "the (run_schedule scans_only (construct 5 store_AB))"
  have r: "run_schedule scans_only (construct 5 store_AB) \<noteq> None"
    by code_simp
  have e: "\<not> stopping ?s" "active_slice_walkers ?s = 0" "map txn (slices ?s) = [Committed, Committed]"
    "rfailure ?s = None"
    by code_simp+
  from finalization_needs_stop[OF run_schedule_the[OF r]] e show ?thesis by simp
qed




lemma winv_bounded:
  assumes "winv h this sls s"
  shows "\<exists>N. \<forall>n s'. (step ^^ n) s s' \<longrightarrow> n \<le> N"
proof (intro exI allI impI)
  fix n s' assume "(step ^^ n) s s'"
  from winv_relpowp[OF this assms] show "n \<le> world_measure h sls s" by simp
qed



text \<open>
  C2. For a store with at least one slice, in every state reachable from the constructor
  (the environment may call \<^verbatim>\<open>stop\<close> at any moment, once): the sink's \<^verbatim>\<open>stopped()\<close> has been
  called at most once; if it has been called, \<^verbatim>\<open>stopping\<close> holds and both
  \<^verbatim>\<open>active_slice_walkers\<close> and \<^verbatim>\<open>active_uninstallations\<close> are zero; nothing has failed; as
  long as \<^verbatim>\<open>stop\<close> has not been called it can be called; every run is finite, and when
  nothing is left to do \<^verbatim>\<open>stop\<close> has been called and \<^verbatim>\<open>stopped()\<close> has been called exactly once.
\<close>

theorem stop_finalizes_exactly_once:
  assumes "sls \<noteq> []" and "\<forall>sl \<in> set sls. tree_ok h sl"
    and "step\<^sup>*\<^sup>* (construct this sls) s"
  shows "stopped_calls s \<le> 1
    \<and> (0 < stopped_calls s \<longrightarrow>
         stopping s \<and> active_slice_walkers s = 0 \<and> active_uninstallations s = Some 0)
    \<and> \<not> crashed s
    \<and> (\<not> stopping s \<longrightarrow> step s (stop s))
    \<and> (\<exists>N. \<forall>n s'. (step ^^ n) s s' \<longrightarrow> n \<le> N)
    \<and> (\<forall>s'. step\<^sup>*\<^sup>* s s' \<and> (\<forall>t. \<not> step s' t) \<longrightarrow> stopping s' \<and> stopped_calls s' = 1)"
proof -
  have w: "winv h this sls s" by (rule winv_reachable[OF assms(3,2)])
  have nc: "\<not> crashed s" by (rule winv_not_crashed[OF w])
  have a: "\<not> stopping s \<longrightarrow> step s (stop s)" using step.do_stop[OF nc] by simp
  have c: "stopping s' \<and> stopped_calls s' = 1" if "step\<^sup>*\<^sup>* s s'" "\<forall>t. \<not> step s' t" for s'
  proof -
    have w': "winv h this sls s'" by (rule winv_rtranclp[OF that(1) w])
    have "0 < length sls" using assms(1) by simp
    from winv_terminal(1)[OF w' that(2) this] winv_terminal_stopped(1)[OF w' that(2) assms(1)]
    show ?thesis by simp
  qed
  show ?thesis
    using winv_stopped_calls(1,2)[OF w] nc a winv_bounded[OF w] c by blast
qed

theorem stop_finalizes_exactly_once_witness:
  "length store_AB = 2
   \<and> tree_ok 0 shard_A \<and> tree_ok 0 shard_B
   \<and> stopped_calls (the (run_schedule stop_during_scans (construct 5 store_AB))) = 1
   \<and> stopping (the (run_schedule stop_during_scans (construct 5 store_AB)))
   \<and> active_slice_walkers (the (run_schedule stop_during_scans (construct 5 store_AB))) = 0
   \<and> active_uninstallations (the (run_schedule stop_during_scans (construct 5 store_AB))) = Some 0
   \<and> \<not> crashed (the (run_schedule stop_during_scans (construct 5 store_AB)))"
proof -
  let ?s = "the (run_schedule stop_during_scans (construct 5 store_AB))"
  have r: "run_schedule stop_during_scans (construct 5 store_AB) \<noteq> None"
    by code_simp
  have t: "tree_ok 0 shard_A" "tree_ok 0 shard_B" by code_simp+
  then have ts: "\<forall>sl \<in> set store_AB. tree_ok 0 sl" by (simp add: store_AB_def)
  have n: "store_AB \<noteq> []" "length store_AB = 2" by (simp_all add: store_AB_def)
  have e: "stopped_calls ?s = 1" by code_simp
  from stop_finalizes_exactly_once[OF n(1) ts run_schedule_the[OF r]] t n(2) e show ?thesis
    by simp
qed

lemma slice_run_append:
  "slice_run (xs @ ys) s = (case slice_run xs s of None \<Rightarrow> None | Some s' \<Rightarrow> slice_run ys s')"
  by (induction xs arbitrary: s) (simp_all split: option.splits)

lemma walk_branch_later:
  shows "failure (walk_branch False b t) = failure t"
    and "stack (walk_branch False b t) = stack t"
    and "pending (walk_branch False b t) = pending t @ [Block_available (next_walker t) b]"
    and "next_walker (walk_branch False b t) = Suc (next_walker t)"
    and "active_branch_walkers (walk_branch False b t) = active_branch_walkers t + 1"
    and "trace (walk_branch False b t)
          = E_acquire (next_walker t) b # E_construct (next_walker t) # trace t"
    and "walkers (walk_branch False b t) = (walkers t)(next_walker t \<mapsto> new_walker)"
    and "txn (walk_branch False b t) = txn t"
    and "outbox (walk_branch False b t) = outbox t"
    and "blocks (walk_branch False b t) = blocks t"
  by (simp_all add: walk_branch_def hand_over_def emit_def Let_def)

lemma spawn_later:
  assumes "failure t = None" "stack t = map Walk_branch bs @ rest"
  shows "\<exists>t'. slice_run (replicate (length bs) (Run False)) t = Some t' \<and> stack t' = rest
     \<and> failure t' = None
     \<and> pending t' = pending t @ map (\<lambda>(v, b). Block_available v b)
                                   (zip [next_walker t..<next_walker t + length bs] bs)
     \<and> next_walker t' = next_walker t + length bs
     \<and> active_branch_walkers t' = active_branch_walkers t + int (length bs)
     \<and> n_constructed (trace t') = n_constructed (trace t) + length bs
     \<and> n_destroyed (trace t') = n_destroyed (trace t)
     \<and> (\<forall>v < next_walker t. walkers t' v = walkers t v)
     \<and> (\<forall>v. next_walker t \<le> v \<and> v < next_walker t + length bs \<longrightarrow> walkers t' v = Some new_walker)
     \<and> txn t' = txn t \<and> outbox t' = outbox t \<and> blocks t' = blocks t"
  using assms
proof (induction bs arbitrary: t)
  case Nil
  then show ?case by auto
next
  case (Cons b bs)
  define t1 where "t1 = walk_branch False b (t\<lparr>stack := map Walk_branch bs @ rest\<rparr>)"
  note wb = walk_branch_later[of b "t\<lparr>stack := map Walk_branch bs @ rest\<rparr>", folded t1_def, simplified]
  have f: "slice_fire (Run False) t = Some t1"
    using Cons.prems by (simp add: t1_def)
  have p1: "failure t1 = None" "stack t1 = map Walk_branch bs @ rest"
    using wb(1,2) Cons.prems(1) by simp_all
  from Cons.IH[OF p1] obtain t' where t':
    "slice_run (replicate (length bs) (Run False)) t1 = Some t'" "stack t' = rest"
    "failure t' = None"
    "pending t' = pending t1 @ map (\<lambda>(v, b). Block_available v b)
                                   (zip [next_walker t1..<next_walker t1 + length bs] bs)"
    "next_walker t' = next_walker t1 + length bs"
    "active_branch_walkers t' = active_branch_walkers t1 + int (length bs)"
    "n_constructed (trace t') = n_constructed (trace t1) + length bs"
    "n_destroyed (trace t') = n_destroyed (trace t1)"
    "\<forall>v < next_walker t1. walkers t' v = walkers t1 v"
    "\<forall>v. next_walker t1 \<le> v \<and> v < next_walker t1 + length bs \<longrightarrow> walkers t' v = Some new_walker"
    "txn t' = txn t1" "outbox t' = outbox t1" "blocks t' = blocks t1"
    by blast
  have u: "[next_walker t..<next_walker t + length (b # bs)]
      = next_walker t # [Suc (next_walker t)..<Suc (next_walker t) + length bs]"
    using upt_conv_Cons[of "next_walker t" "next_walker t + Suc (length bs)"] by simp
  have r: "slice_run (replicate (length (b # bs)) (Run False)) t = Some t'"
    using f t'(1) by simp
  have pe: "pending t' = pending t @ map (\<lambda>(v, b). Block_available v b)
                                   (zip [next_walker t..<next_walker t + length (b # bs)] (b # bs))"
    unfolding u using t'(4) wb(3,4) by simp
  have w1: "\<forall>v < next_walker t. walkers t' v = walkers t v"
    using t'(9) wb(4,7) by simp
  have w2: "\<forall>v. next_walker t \<le> v \<and> v < next_walker t + length (b # bs)
      \<longrightarrow> walkers t' v = Some new_walker"
  proof (intro allI impI)
    fix v assume v: "next_walker t \<le> v \<and> v < next_walker t + length (b # bs)"
    show "walkers t' v = Some new_walker"
    proof (cases "v = next_walker t")
      case True
      then show ?thesis using t'(9) wb(4,7) by simp
    next
      case False
      then show ?thesis using t'(10) wb(4) v by simp
    qed
  qed
  show ?case
    using r t'(2,3) pe t'(5,6,7,8) w1 w2 t'(11,12,13) wb(4,5,6,8,9,10)
    by (intro exI[of _ t']) simp
qed

lemma delete_this_result:
  assumes "walkers t w = Some wk" "buf wk = Some b" "txn t = Open_txn" "failure t = None"
  shows "stack (delete_this w t) = stack t" "pending (delete_this w t) = pending t"
    "active_branch_walkers (delete_this w t) = active_branch_walkers t - 1"
    "n_constructed (trace (delete_this w t)) = n_constructed (trace t)"
    "n_destroyed (trace (delete_this w t)) = Suc (n_destroyed (trace t))"
    "walkers (delete_this w t) w = None" "failure (delete_this w t) = None"
  using assms by (simp_all add: delete_this_def slice_done_def emit_def Let_def)

text \<open>
  C7. When the block of a walker \<open>w\<close> is an internal node with the pairs \<open>ps\<close>,
  \<^verbatim>\<open>on_block_available\<close> makes one \<^verbatim>\<open>walk_branch\<close> call per pair, in pair order, and then
  \<^verbatim>\<open>delete this\<close>. Every \<^verbatim>\<open>walk_branch\<close> increments \<^verbatim>\<open>active_branch_walkers\<close> by one and
  requests the child's block before the child does anything. When no child's block is
  available at once, all children are constructed (the counter is incremented once per
  child) before any child's work starts, the parent is destroyed right after the loop (the
  counter is decremented by one) and the children are left waiting for their blocks, in
  pair order: the parent does not wait for them.
\<close>

theorem internal_node_spawns_children:
  assumes "slice_step\<^sup>*\<^sup>* (walk_slice sl) s" and "stack s = Block_available w b # cs"
    and "blocks s b = Internal_node ps"
  shows "(\<exists>wk. walkers s w = Some wk \<and>
           exec now (Block_available w b) (s\<lparr>stack := cs\<rparr>) =
             s\<lparr>walkers := (walkers s)(w \<mapsto> wk\<lparr>buf := Some b\<rparr>),
               stack := map (\<lambda>p. Walk_branch (snd p)) ps @ Delete_this w # cs\<rparr>)
    \<and> (\<forall>c t. active_branch_walkers (walk_branch now c t) = active_branch_walkers t + 1
          \<and> trace (walk_branch now c t)
              = E_acquire (next_walker t) c # E_construct (next_walker t) # trace t
          \<and> todo (walk_branch now c t)
              = (if now then Block_available (next_walker t) c # todo t
                 else todo t @ [Block_available (next_walker t) c]))
    \<and> (\<exists>s'. slice_run (Run now # replicate (length ps) (Run False) @ [Run now']) s = Some s'
          \<and> stack s' = cs
          \<and> pending s' = pending s @ map (\<lambda>(v, c). Block_available v c)
                (zip [next_walker s..<next_walker s + length ps] (map snd ps))
          \<and> active_branch_walkers s' = active_branch_walkers s + int (length ps) - 1
          \<and> n_constructed (trace s') = n_constructed (trace s) + length ps
          \<and> n_destroyed (trace s') = Suc (n_destroyed (trace s))
          \<and> walkers s' w = None \<and> failure s' = None)"
proof -
  have inv: "sinv s" using slice_reachable[OF assms(1)] by simp
  note d = sinvD[OF inv]
  have ow: "w \<in> set (owners (todo s))" using assms(2) by (simp add: todo_def)
  then obtain wk where wk: "walkers s w = Some wk" using d(4) by auto
  have lt: "w < next_walker s" using d(5) ow by simp
  have "\<not> prewalk s" using ow unfolding prewalk_def todo_def by auto
  then have "walking s" using d(10) by simp
  then have op: "txn s = Open_txn" using ow unfolding walking_def by auto
  define s1 where "s1 = s\<lparr>walkers := (walkers s)(w \<mapsto> wk\<lparr>buf := Some b\<rparr>),
               stack := map (\<lambda>p. Walk_branch (snd p)) ps @ Delete_this w # cs\<rparr>"
  have e: "exec now (Block_available w b) (s\<lparr>stack := cs\<rparr>) = s1"
    unfolding s1_def using wk assms(3) by (simp add: on_block_available_def)
  have f1: "slice_fire (Run now) s = Some s1"
    using d(1) assms(2) e by simp
  have a: "\<exists>wk. walkers s w = Some wk \<and>
           exec now (Block_available w b) (s\<lparr>stack := cs\<rparr>) =
             s\<lparr>walkers := (walkers s)(w \<mapsto> wk\<lparr>buf := Some b\<rparr>),
               stack := map (\<lambda>p. Walk_branch (snd p)) ps @ Delete_this w # cs\<rparr>"
    using wk e unfolding s1_def by blast
  have b: "active_branch_walkers (walk_branch now c t) = active_branch_walkers t + 1
          \<and> trace (walk_branch now c t)
              = E_acquire (next_walker t) c # E_construct (next_walker t) # trace t
          \<and> todo (walk_branch now c t)
              = (if now then Block_available (next_walker t) c # todo t
                 else todo t @ [Block_available (next_walker t) c])" for c t
    by (simp add: walk_branch_def hand_over_def emit_def Let_def todo_def)
  have p1: "failure s1 = None" "stack s1 = map Walk_branch (map snd ps) @ Delete_this w # cs"
    using d(1) by (simp_all add: s1_def)
  from spawn_later[OF p1] obtain t' where t':
    "slice_run (replicate (length (map snd ps)) (Run False)) s1 = Some t'"
    "stack t' = Delete_this w # cs" "failure t' = None"
    "pending t' = pending s1 @ map (\<lambda>(v, b). Block_available v b)
        (zip [next_walker s1..<next_walker s1 + length (map snd ps)] (map snd ps))"
    "next_walker t' = next_walker s1 + length (map snd ps)"
    "active_branch_walkers t' = active_branch_walkers s1 + int (length (map snd ps))"
    "n_constructed (trace t') = n_constructed (trace s1) + length (map snd ps)"
    "n_destroyed (trace t') = n_destroyed (trace s1)"
    "\<forall>v < next_walker s1. walkers t' v = walkers s1 v"
    "txn t' = txn s1"
    by blast
  define t2 where "t2 = t'\<lparr>stack := cs\<rparr>"
  have w2: "walkers t2 w = Some (wk\<lparr>buf := Some b\<rparr>)"
    using t'(9) lt by (simp add: t2_def s1_def)
  have q: "buf (wk\<lparr>buf := Some b\<rparr>) = Some b" "txn t2 = Open_txn" "failure t2 = None"
    using t'(3,10) op by (simp_all add: t2_def s1_def)
  note r = delete_this_result[OF w2 q]
  have f2: "slice_fire (Run now') t' = Some (delete_this w t2)"
    using t'(2,3) by (simp add: t2_def)
  have run: "slice_run (Run now # replicate (length ps) (Run False) @ [Run now']) s
      = Some (delete_this w t2)"
    using f1 t'(1) f2 by (simp add: slice_run_append)
  have c: "\<exists>s'. slice_run (Run now # replicate (length ps) (Run False) @ [Run now']) s = Some s'
          \<and> stack s' = cs
          \<and> pending s' = pending s @ map (\<lambda>(v, c). Block_available v c)
                (zip [next_walker s..<next_walker s + length ps] (map snd ps))
          \<and> active_branch_walkers s' = active_branch_walkers s + int (length ps) - 1
          \<and> n_constructed (trace s') = n_constructed (trace s) + length ps
          \<and> n_destroyed (trace s') = Suc (n_destroyed (trace s))
          \<and> walkers s' w = None \<and> failure s' = None"
    using run r t'(4,6,7,8)
    by (intro exI[of _ "delete_this w t2"]) (simp add: t2_def s1_def)
  show ?thesis using a b c by blast
qed

theorem internal_node_spawns_children_witness:
  "stack shard_C_at_root = [Block_available 0 1, Release_superblock]
   \<and> blocks shard_C_at_root 1 = Internal_node [(''a'', 2), (''m'', 3)]
   \<and> active_branch_walkers shard_C_at_root = 1
   \<and> pending (the (slice_run (Run False # replicate 2 (Run False) @ [Run False]) shard_C_at_root))
       = [Block_available 1 2, Block_available 2 3]
   \<and> stack (the (slice_run (Run False # replicate 2 (Run False) @ [Run False]) shard_C_at_root))
       = [Release_superblock]
   \<and> active_branch_walkers
        (the (slice_run (Run False # replicate 2 (Run False) @ [Run False]) shard_C_at_root)) = 2
   \<and> walkers (the (slice_run (Run False # replicate 2 (Run False) @ [Run False]) shard_C_at_root)) 0
       = None"
proof -
  let ?sched = "Run False # replicate 2 (Run False) @ [Run False]"
  have r: "slice_run (Begin_walk # replicate 3 (Run True)) (walk_slice shard_C) \<noteq> None"
    by code_simp
  have reach: "slice_step\<^sup>*\<^sup>* (walk_slice shard_C) shard_C_at_root"
    unfolding shard_C_at_root_def by (rule slice_run_the[OF r])
  have g: "stack shard_C_at_root = [Block_available 0 1, Release_superblock]"
    "blocks shard_C_at_root 1 = Internal_node [(''a'', 2), (''m'', 3)]"
    "active_branch_walkers shard_C_at_root = 1" "pending shard_C_at_root = []"
    "next_walker shard_C_at_root = 1"
    by code_simp+
  have len: "length [(''a'', 2::nat), (''m'', 3::nat)] = 2" by simp
  from internal_node_spawns_children[OF reach g(1,2), of False False, unfolded len]
  obtain s' where s': "slice_run ?sched shard_C_at_root = Some s'" "stack s' = [Release_superblock]"
    "pending s' = pending shard_C_at_root @ map (\<lambda>(v, c). Block_available v c)
       (zip [next_walker shard_C_at_root..<next_walker shard_C_at_root + 2]
            (map snd [(''a'', 2::nat), (''m'', 3::nat)]))"
    "active_branch_walkers s' = active_branch_walkers shard_C_at_root + int 2 - 1"
    "walkers s' 0 = None"
    by blast
  have u: "[1..<1 + 2] = [1::nat, 2]" by (simp add: upt_rec)
  have "pending s' = [Block_available 1 2, Block_available 2 3]"
    unfolding s'(3) g(4,5) u by simp
  then show ?thesis using g(1,2,3) s'(1,2,4,5) by simp
qed

theorem internal_node_child_runs_in_loop:
  "blocks shard_C 1 = Internal_node [(''a'', 2), (''m'', 3)]
   \<and> blocks shard_C 2 = Leaf_node [(''a'', value_a)]
   \<and> trace shard_C_first_child
       = [E_value 1 ''a'' [''1''] 0 0 0, E_acquire 1 2, E_construct 1,
          E_acquire 0 1, E_construct 0, E_acquire_super, E_begin]
   \<and> stack shard_C_first_child = [Walk_branch 3, Delete_this 0, Release_superblock]
   \<and> pending shard_C_first_child = [Done_callback 1]
   \<and> active_branch_walkers shard_C_first_child = 2
   \<and> n_constructed (trace shard_C_first_child) = 2
   \<and> failure shard_C_first_child = None"
  by code_simp

end
